theory Spec2Isabelle
  imports Main "HOL-Library.Char_ord" "HOL-Library.List_Lexorder" "HOL-Library.AList"
begin

section \<open>Python strings\<close>

text \<open>
  A Python \<open>str\<close> is modelled as a \<open>string\<close> whose characters are the code points
  below 256. \<open>str.isspace\<close>, \<open>str.strip\<close> and \<open>str.split\<close> share one notion of
  whitespace; these are its members in that range.
\<close>

definition whitespace_chars :: "char list" where
  "whitespace_chars = [CHR 0x09, CHR 0x0A, CHR 0x0B, CHR 0x0C, CHR 0x0D,
     CHR 0x1C, CHR 0x1D, CHR 0x1E, CHR 0x1F, CHR 0x20, CHR 0x85, CHR 0xA0]"

definition py_isspace :: "char \<Rightarrow> bool" where
  "py_isspace c = (c \<in> set whitespace_chars)"

text \<open>\<open>s.strip()\<close>: whitespace removed at both ends.\<close>

definition py_rstrip :: "string \<Rightarrow> string" where
  "py_rstrip s = rev (dropWhile py_isspace (rev s))"

definition py_strip :: "string \<Rightarrow> string" where
  "py_strip s = py_rstrip (dropWhile py_isspace s)"

text \<open>
  \<open>s.split()\<close> without a separator: the maximal runs of non-whitespace characters, in
  order. The scan keeps the word read so far in \<open>w\<close>.
\<close>

fun split_ws :: "string \<Rightarrow> string \<Rightarrow> string list" where
  "split_ws w [] = (if w = [] then [] else [w])"
| "split_ws w (c # cs) =
     (if py_isspace c then (if w = [] then split_ws [] cs else w # split_ws [] cs)
      else split_ws (w @ [c]) cs)"

definition py_split :: "string \<Rightarrow> string list" where
  "py_split s = split_ws [] s"

text \<open>\<open>sep.join(parts)\<close>.\<close>

fun py_join :: "string \<Rightarrow> string list \<Rightarrow> string" where
  "py_join sep [] = []"
| "py_join sep [x] = x"
| "py_join sep (x # y # ys) = x @ sep @ py_join sep (y # ys)"

text \<open>\<open>s.replace(old, new)\<close> for a one-character \<open>old\<close> and \<open>new\<close>.\<close>

definition py_replace_char :: "char \<Rightarrow> char \<Rightarrow> string \<Rightarrow> string" where
  "py_replace_char old new s = map (\<lambda>c. if c = old then new else c) s"

text \<open>\<open>s.startswith(p)\<close>, \<open>s.endswith(p)\<close> and \<open>p in s\<close>.\<close>

fun startswith :: "string \<Rightarrow> string \<Rightarrow> bool" where
  "startswith s [] = True"
| "startswith [] (p # ps) = False"
| "startswith (c # cs) (p # ps) = (c = p \<and> startswith cs ps)"

definition endswith :: "string \<Rightarrow> string \<Rightarrow> bool" where
  "endswith s p = startswith (rev s) (rev p)"

fun py_contains :: "string \<Rightarrow> string \<Rightarrow> bool" where
  "py_contains [] p = (p = [])"
| "py_contains (c # cs) p = (startswith (c # cs) p \<or> py_contains cs p)"

section \<open>Sanitizing path names\<close>

text \<open>
  \<^verbatim>\<open>_clean_path_name\<close>: each character of \<^verbatim>\<open><>:"|?*\<close> is replaced by an underscore,
  one \<open>replace\<close> call per character, then the words of the result are joined by single
  spaces and the result is stripped.
\<close>

definition invalid_chars :: "char list" where
  "invalid_chars = [CHR ''<'', CHR ''>'', CHR '':'', CHR 0x22, CHR ''|'', CHR ''?'', CHR ''*'']"

definition clean_path_name :: "string \<Rightarrow> string" where
  "clean_path_name name =
     (let name1 = foldl (\<lambda>n char. py_replace_char char (CHR ''_'') n) name invalid_chars;
          name2 = py_join '' '' (py_split name1)
      in py_strip name2)"

text \<open>
  The sanitization as the specification words it: every character of the set becomes an
  underscore, every run of whitespace becomes one space, and the ends are trimmed.
\<close>

definition spec_replace_invalid :: "string \<Rightarrow> string" where
  "spec_replace_invalid s = map (\<lambda>c. if c \<in> set invalid_chars then CHR ''_'' else c) s"

fun spec_collapse_ws :: "bool \<Rightarrow> string \<Rightarrow> string" where
  "spec_collapse_ws in_run [] = []"
| "spec_collapse_ws in_run (c # cs) =
     (if py_isspace c then (if in_run then spec_collapse_ws True cs
                            else CHR '' '' # spec_collapse_ws True cs)
      else c # spec_collapse_ws False cs)"

definition spec_sanitize :: "string \<Rightarrow> string" where
  "spec_sanitize s = py_strip (spec_collapse_ws False (spec_replace_invalid s))"

text \<open>No two adjacent characters of the string are both whitespace.\<close>

fun no_ws_run :: "string \<Rightarrow> bool" where
  "no_ws_run (a # b # cs) = (\<not> (py_isspace a \<and> py_isspace b) \<and> no_ws_run (b # cs))"
| "no_ws_run cs = True"

section \<open>Paths\<close>

text \<open>\<open>s.split(sep)\<close> with a one-character separator: empty pieces are kept.\<close>

fun split_on :: "char \<Rightarrow> string \<Rightarrow> string \<Rightarrow> string list" where
  "split_on sep w [] = [w]"
| "split_on sep w (c # cs) =
     (if c = sep then w # split_on sep [] cs else split_on sep (w @ [c]) cs)"

definition py_split_sep :: "char \<Rightarrow> string \<Rightarrow> string list" where
  "py_split_sep sep s = split_on sep [] s"

text \<open>\<open>posixpath.join(a, b)\<close>: an absolute \<open>b\<close> discards \<open>a\<close>.\<close>

definition os_path_join :: "string \<Rightarrow> string \<Rightarrow> string" where
  "os_path_join a b =
     (if startswith b ''/'' then b
      else if a = [] \<or> endswith a ''/'' then a @ b
      else a @ ''/'' @ b)"

text \<open>\<open>posixpath.basename\<close>: what follows the last slash.\<close>

definition os_path_basename :: "string \<Rightarrow> string" where
  "os_path_basename p = rev (takeWhile (\<lambda>c. c \<noteq> CHR ''/'') (rev p))"

text \<open>
  \<open>posixpath.dirname\<close>: what precedes the basename, without its trailing slashes unless
  it consists of slashes only.
\<close>

definition os_path_dirname :: "string \<Rightarrow> string" where
  "os_path_dirname p =
     (let head = rev (dropWhile (\<lambda>c. c \<noteq> CHR ''/'') (rev p))
      in if head \<noteq> [] \<and> head \<noteq> replicate (length head) (CHR ''/'')
         then rev (dropWhile (\<lambda>c. c = CHR ''/'') (rev head))
         else head)"

text \<open>
  The component loop of \<open>posixpath.normpath\<close> on an absolute path: empty components and
  \<open>.\<close> are dropped, \<open>..\<close> removes the component before it and is dropped at the root.
\<close>

fun norm_comps :: "string list \<Rightarrow> string list \<Rightarrow> string list" where
  "norm_comps new_comps [] = new_comps"
| "norm_comps new_comps (c # comps) =
     (if c = [] \<or> c = ''.'' then norm_comps new_comps comps
      else if c \<noteq> ''..'' \<or> (new_comps \<noteq> [] \<and> last new_comps = ''..'')
        then norm_comps (new_comps @ [c]) comps
      else if new_comps \<noteq> [] then norm_comps (butlast new_comps) comps
      else norm_comps new_comps comps)"

fun common_prefix :: "string list \<Rightarrow> string list \<Rightarrow> string list" where
  "common_prefix (x # xs) (y # ys) = (if x = y then x # common_prefix xs ys else [])"
| "common_prefix xs ys = []"

text \<open>
  \<open>posixpath.relpath(path, start)\<close> for absolute arguments, which is what every call of
  the program passes: the input directory is resolved when the converter is built, and
  every folder path is a directory that \<open>os.walk\<close> found under it.
\<close>

definition os_path_relpath :: "string \<Rightarrow> string \<Rightarrow> string" where
  "os_path_relpath path start =
     (let start_list = norm_comps [] (py_split_sep (CHR ''/'') start);
          path_list = norm_comps [] (py_split_sep (CHR ''/'') path);
          i = length (common_prefix start_list path_list);
          rel_list = replicate (length start_list - i) ''..'' @ drop i path_list
      in case rel_list of [] \<Rightarrow> ''.'' | r # rs \<Rightarrow> foldl os_path_join r rs)"

text \<open>
  \<open>str(Path(a) / b)\<close> of \<open>pathlib\<close> on POSIX: the segments are joined as
  \<open>posixpath.join\<close> does, the root is kept (two leading slashes are a root of their
  own), empty components and \<open>.\<close> are dropped, and the empty path prints as a dot.
\<close>

definition path_truediv :: "string \<Rightarrow> string \<Rightarrow> string" where
  "path_truediv a b =
     (let joined = os_path_join a b;
          root = (if startswith joined ''//'' \<and> \<not> startswith joined ''///'' then ''//''
                  else if startswith joined ''/'' then ''/'' else []);
          parts = filter (\<lambda>x. x \<noteq> [] \<and> x \<noteq> ''.'') (py_split_sep (CHR ''/'') joined);
          s = root @ py_join ''/'' parts
      in if s = [] then ''.'' else s)"

section \<open>The data model\<close>

text \<open>
  What \<open>pydicom.dcmread\<close> returns, as far as the program reads it: an attribute that the
  data set lacks is \<open>None\<close>, one that it has is given as \<open>str\<close> prints it.
\<close>

record dataset =
  PatientID :: "string option"
  StudyDate :: "string option"
  StudyDescription :: "string option"
  SeriesInstanceUID :: "string option"
  SeriesDescription :: "string option"

text \<open>
  A file of the input tree, as far as the program looks at it: its name, what
  \<open>open\<close>, \<open>seek(128)\<close> and \<open>read(4)\<close> yield of it (\<open>None\<close> when one of them raises; fewer
  than four bytes when the file ends before), and the outcome of \<open>pydicom.dcmread\<close> with
  \<open>force=True\<close> (\<open>None\<close> when it raises).
\<close>

record file_entry =
  fname :: string
  fmagic :: "string option"
  fdataset :: "dataset option"

text \<open>
  A directory of the input tree: its name, whether the entry is a symbolic link to a
  directory, whether listing it succeeds, the entries that \<open>os.walk\<close> reports as files
  and those it reports as directories. Behind a symbolic link stands the directory that
  the link leads to.
\<close>

datatype dnode =
  Dir (dname: string) (dislink: bool) (dlistable: bool)
      (dfiles: "file_entry list") (dsubs: "dnode list")

record DicomFolder =
  folder_path :: string
  folder_name :: string
  patient_id :: string
  study_date :: string
  study_description :: string
  series_count :: nat
  file_count :: nat
  series_descriptions :: "string list"

record config =
  input_dir :: string
  output_dir :: string
  compress :: bool
  use_dcm2niix :: bool
  organize_by_folder :: bool
  include_patient_info :: bool

section \<open>Scanning\<close>

text \<open>
  \<open>os.walk(top)\<close> as the scan calls it, top-down, without following links and without
  an error handler: a directory that cannot be listed yields nothing; one that can
  yields itself, with the names of all its subdirectories, and then the walk of each
  subdirectory in turn under the joined path, except of those that are symbolic links.
  The top itself is entered also when it is a link. Files are yielded with their
  contents instead of by name only.
\<close>

fun os_walk :: "string \<Rightarrow> dnode \<Rightarrow> (string \<times> string list \<times> file_entry list) list"
  and os_walk_subs :: "string \<Rightarrow> dnode list \<Rightarrow> (string \<times> string list \<times> file_entry list) list" where
  "os_walk topdir (Dir n l ok fs ds) =
     (if ok then (topdir, map dname ds, fs) # os_walk_subs topdir ds else [])"
| "os_walk_subs topdir [] = []"
| "os_walk_subs topdir (d # ds) =
     (if dislink d then [] else os_walk (os_path_join topdir (dname d)) d)
     @ os_walk_subs topdir ds"

text \<open>
  The directories reachable from a root, each with its path, and among them those that
  the walk enters: the root when it can be listed, and each subdirectory of an entered
  directory that is no symbolic link and can be listed.
\<close>

inductive reachable :: "string \<Rightarrow> dnode \<Rightarrow> string \<Rightarrow> dnode \<Rightarrow> bool" where
  reach_self: "reachable topdir t topdir t"
| reach_sub: "d \<in> set (dsubs t) \<Longrightarrow> reachable (os_path_join topdir (dname d)) d p x
     \<Longrightarrow> reachable topdir t p x"

inductive walked :: "string \<Rightarrow> dnode \<Rightarrow> string \<Rightarrow> dnode \<Rightarrow> bool" where
  walk_self: "dlistable t \<Longrightarrow> walked topdir t topdir t"
| walk_sub: "dlistable t \<Longrightarrow> d \<in> set (dsubs t) \<Longrightarrow> \<not> dislink d
     \<Longrightarrow> walked (os_path_join topdir (dname d)) d p x \<Longrightarrow> walked topdir t p x"

text \<open>
  What a file system guarantees of a tree: an entry name is not empty and has no slash,
  and the subdirectories of one directory have different names.
\<close>

definition valid_name :: "string \<Rightarrow> bool" where
  "valid_name n = (n \<noteq> [] \<and> CHR ''/'' \<notin> set n)"

fun wf_tree :: "dnode \<Rightarrow> bool" where
  "wf_tree (Dir n l ok fs ds) =
     (distinct (map dname ds) \<and> (\<forall>d \<in> set ds. valid_name (dname d) \<and> wf_tree d))"

text \<open>
  \<^verbatim>\<open>_is_dicom_file\<close>: the four bytes read at offset 128 are \<open>DICM\<close>, or else the file
  parses and has a series identifier. Any exception makes the answer \<open>False\<close>.
\<close>

definition is_dicom_file :: "file_entry \<Rightarrow> bool" where
  "is_dicom_file f =
     (case fmagic f of
        None \<Rightarrow> False
      | Some magic \<Rightarrow>
          if magic = ''DICM'' then True
          else (case fdataset f of
                  None \<Rightarrow> False
                | Some dcm \<Rightarrow> SeriesInstanceUID dcm \<noteq> None))"

text \<open>
  The loop of \<^verbatim>\<open>_analyze_dicom_folder\<close> over the sampled files. The two Python sets are
  lists without repetition: \<open>add\<close> inserts an element that is not there yet.
\<close>

fun series_loop :: "(string \<times> file_entry) list \<Rightarrow> string list \<times> string list
    \<Rightarrow> string list \<times> string list" where
  "series_loop [] acc = acc"
| "series_loop ((file_path, f) # rest) (series_set, series_uids) =
     (case fdataset f of
        None \<Rightarrow> series_loop rest (series_set, series_uids)
      | Some d \<Rightarrow>
          let series_uids1 = (case SeriesInstanceUID d of
                                None \<Rightarrow> series_uids
                              | Some uid \<Rightarrow> List.insert uid series_uids);
              series_set1 = (case SeriesDescription d of
                               None \<Rightarrow> series_set
                             | Some sd \<Rightarrow>
                                 let desc = py_strip sd
                                 in if desc \<noteq> [] then List.insert desc series_set
                                    else series_set)
          in series_loop rest (series_set1, series_uids1))"

text \<open>\<open>str(getattr(dcm, name, dflt)).strip()\<close>.\<close>

definition getattr_strip :: "string option \<Rightarrow> string \<Rightarrow> string" where
  "getattr_strip attr dflt = py_strip (case attr of None \<Rightarrow> dflt | Some v \<Rightarrow> v)"

text \<open>
  \<^verbatim>\<open>_analyze_dicom_folder\<close>: \<open>None\<close> when reading the first file raises (an empty list
  raises at index 0), which the caller takes as "no unit for this folder".
\<close>

definition analyze_dicom_folder :: "string \<Rightarrow> (string \<times> file_entry) list \<Rightarrow> DicomFolder option" where
  "analyze_dicom_folder folder_path' dicom_files =
     (case dicom_files of
        [] \<Rightarrow> None
      | (first_path, first_file) # _ \<Rightarrow>
          (case fdataset first_file of
             None \<Rightarrow> None
           | Some dcm \<Rightarrow>
               let (series_set, series_uids) = series_loop (take 100 dicom_files) ([], [])
               in Some \<lparr> folder_path = folder_path',
                         folder_name = os_path_basename folder_path',
                         patient_id = getattr_strip (PatientID dcm) ''Unknown'',
                         study_date = getattr_strip (StudyDate dcm) [],
                         study_description = getattr_strip (StudyDescription dcm) [],
                         series_count = (if series_uids \<noteq> [] then length series_uids
                                         else length series_set),
                         file_count = length dicom_files,
                         series_descriptions = sort series_set \<rparr>))"

text \<open>
  \<^verbatim>\<open>scan_dicom_folders\<close>. The dictionary \<open>dicom_folders\<close> is an association list in
  insertion order; assigning to a key that is there keeps its place.
\<close>

definition dicom_files_of :: "string \<Rightarrow> file_entry list \<Rightarrow> (string \<times> file_entry) list" where
  "dicom_files_of root files =
     map (\<lambda>f. (os_path_join root (fname f), f)) (filter is_dicom_file files)"

fun scan_loop :: "(string \<times> string list \<times> file_entry list) list
    \<Rightarrow> (string \<times> DicomFolder) list \<Rightarrow> (string \<times> DicomFolder) list" where
  "scan_loop [] dicom_folders = dicom_folders"
| "scan_loop ((root, dirs, files) # rest) dicom_folders =
     (let dicom_files = dicom_files_of root files
      in if dicom_files \<noteq> [] then
           (case analyze_dicom_folder root dicom_files of
              Some folder_info \<Rightarrow> scan_loop rest (AList.update root folder_info dicom_folders)
            | None \<Rightarrow> scan_loop rest dicom_folders)
         else scan_loop rest dicom_folders)"

definition scan_dicom_folders :: "string \<Rightarrow> dnode \<Rightarrow> (string \<times> DicomFolder) list" where
  "scan_dicom_folders input_dir' tree = scan_loop (os_walk input_dir' tree) []"

section \<open>Resolving the output directory\<close>

text \<open>
  \<^verbatim>\<open>_get_output_subdir\<close>. \<open>resolved_rel_path\<close> is the value of \<open>rel_path\<close> when the
  function returns in folder mode; the result is printed as \<open>str\<close> prints the path.
\<close>

definition new_folder_name :: "DicomFolder \<Rightarrow> string \<Rightarrow> string" where
  "new_folder_name folder_info leaf =
     (let parts = (if patient_id folder_info \<noteq> []
                   then [clean_path_name (patient_id folder_info)] else [])
                  @ (if study_date folder_info \<noteq> [] then [study_date folder_info] else [])
                  @ [leaf]
      in py_join ''_'' parts)"

definition resolved_rel_path :: "config \<Rightarrow> DicomFolder \<Rightarrow> string" where
  "resolved_rel_path cfg folder_info =
     (let rel_path = os_path_relpath (folder_path folder_info) (input_dir cfg);
          rel_path = clean_path_name rel_path
      in if include_patient_info cfg \<and> patient_id folder_info \<noteq> [] then
           if \<not> py_contains rel_path (patient_id folder_info) then
             let parent = os_path_dirname rel_path;
                 name = new_folder_name folder_info (os_path_basename rel_path)
             in if parent \<noteq> [] then os_path_join parent name else name
           else rel_path
         else rel_path)"

definition get_output_subdir :: "config \<Rightarrow> DicomFolder \<Rightarrow> string" where
  "get_output_subdir cfg folder_info =
     (if organize_by_folder cfg
      then path_truediv (output_dir cfg) (resolved_rel_path cfg folder_info)
      else output_dir cfg)"

section \<open>Converting\<close>

text \<open>
  The world outside the program is a parameter: \<open>'w\<close> is its state, and the record gives
  what the program asks of it. \<open>mkdir\<close> is \<open>Path.mkdir(parents=True, exist_ok=True)\<close>,
  \<open>subprocess_run\<close> runs the command line and yields the exit status and the captured
  standard error, \<open>listing\<close> gives the names of the entries of a directory, and
  \<open>convert_with_python\<close> is the fallback strategy \<^verbatim>\<open>_convert_with_python\<close>, which
  rebuilds each series with an imaging library; what it returns is left open, and the
  properties of the conversion loop below hold whatever it is. Each of the three that
  act may raise instead and leaves a new state behind in any case.
\<close>

datatype py_exception = PyException string

record 'w env =
  mkdir :: "string \<Rightarrow> 'w \<Rightarrow> py_exception option \<times> 'w"
  subprocess_run :: "string list \<Rightarrow> 'w \<Rightarrow> (py_exception + int \<times> string) \<times> 'w"
  listing :: "string \<Rightarrow> 'w \<Rightarrow> string list"
  convert_with_python :: "string \<Rightarrow> string \<Rightarrow> DicomFolder \<Rightarrow> 'w
      \<Rightarrow> (py_exception + string list) \<times> 'w"

datatype log_level = DEBUG | INFO | WARNING | ERROR

datatype log_message =
    Msg_converting nat nat string
  | Msg_command "string list"
  | Msg_dcm2niix_warning string
  | Msg_generated nat
  | Msg_failed py_exception
  | Msg_no_folders

type_synonym log = "(log_level \<times> log_message) list"

text \<open>The file name template handed to the converter and the pattern of its products.\<close>

definition filename_format :: "config \<Rightarrow> string" where
  "filename_format cfg = (if include_patient_info cfg then ''%p_%s_%d'' else ''%s_%d'')"

definition nifti_suffix :: "config \<Rightarrow> string" where
  "nifti_suffix cfg = (if compress cfg then ''.nii.gz'' else ''.nii'')"

definition dcm2niix_cmd :: "config \<Rightarrow> string \<Rightarrow> string \<Rightarrow> string list" where
  "dcm2niix_cmd cfg input_folder output_folder =
     [''dcm2niix'',
      ''-z'', (if compress cfg then ''y'' else ''n''),
      ''-f'', filename_format cfg,
      ''-o'', output_folder,
      ''-b'', ''y'',
      input_folder]"

text \<open>
  \<open>Path(output_folder).glob('*' + suffix)\<close>, each match printed: the entries of the
  directory whose names end with the suffix, in the order of the listing.
\<close>

definition glob_suffix :: "'w env \<Rightarrow> string \<Rightarrow> string \<Rightarrow> 'w \<Rightarrow> string list" where
  "glob_suffix e output_folder suffix w =
     map (path_truediv output_folder)
         (filter (\<lambda>n. endswith n suffix) (listing e output_folder w))"

text \<open>
  \<^verbatim>\<open>_convert_with_dcm2niix\<close>: the outcome (an exception, or the list of produced files),
  what was logged, and the state of the world afterwards.
\<close>

definition convert_with_dcm2niix ::
    "'w env \<Rightarrow> config \<Rightarrow> string \<Rightarrow> string \<Rightarrow> DicomFolder \<Rightarrow> 'w
     \<Rightarrow> (py_exception + string list) \<times> log \<times> 'w" where
  "convert_with_dcm2niix e cfg input_folder output_folder folder_info w =
     (let cmd = dcm2niix_cmd cfg input_folder output_folder;
          log0 = [(DEBUG, Msg_command cmd)]
      in case subprocess_run e cmd w of
           (Inl exn, w1) \<Rightarrow> (Inl exn, log0, w1)
         | (Inr (returncode, stderr), w1) \<Rightarrow>
             let log1 = (if returncode \<noteq> 0
                         then log0 @ [(WARNING, Msg_dcm2niix_warning stderr)] else log0);
                 nifti_files = glob_suffix e output_folder (nifti_suffix cfg) w1
             in (Inr nifti_files, log1, w1))"

text \<open>\<^verbatim>\<open>_convert_folder\<close>: the output directory and the produced files, or an exception.\<close>

definition convert_folder ::
    "'w env \<Rightarrow> config \<Rightarrow> DicomFolder \<Rightarrow> 'w
     \<Rightarrow> (py_exception + string \<times> string list) \<times> log \<times> 'w" where
  "convert_folder e cfg folder_info w =
     (let output_subdir = get_output_subdir cfg folder_info
      in case mkdir e output_subdir w of
           (Some exn, w1) \<Rightarrow> (Inl exn, [], w1)
         | (None, w1) \<Rightarrow>
             let (r, lg, w2) =
                   (if use_dcm2niix cfg
                    then convert_with_dcm2niix e cfg (folder_path folder_info) output_subdir
                           folder_info w1
                    else (case convert_with_python e (folder_path folder_info) output_subdir
                                 folder_info w1 of
                            (r, w2) \<Rightarrow> (r, [], w2)))
             in (case r of
                   Inl exn \<Rightarrow> (Inl exn, lg, w2)
                 | Inr converted_files \<Rightarrow> (Inr (output_subdir, converted_files), lg, w2)))"

text \<open>
  The loop of \<^verbatim>\<open>convert_all\<close>. \<open>results\<close> is a dictionary in insertion order: a unit that
  converts is stored under the output directory that \<^verbatim>\<open>_convert_folder\<close> returns, a unit
  whose conversion raises is stored with an empty list under the key of the loop, its
  source folder path.
\<close>

fun convert_loop ::
    "'w env \<Rightarrow> config \<Rightarrow> nat \<Rightarrow> nat \<Rightarrow> (string \<times> DicomFolder) list
     \<Rightarrow> (string \<times> string list) list \<times> log \<times> 'w
     \<Rightarrow> (string \<times> string list) list \<times> log \<times> 'w" where
  "convert_loop e cfg n_total idx [] st = st"
| "convert_loop e cfg n_total idx ((folder_path', folder_info) # rest) (results, lg, w) =
     (let lg0 = lg @ [(INFO, Msg_converting idx n_total (folder_name folder_info))]
      in case convert_folder e cfg folder_info w of
           (Inr (output_subdir, converted_files), l, w1) \<Rightarrow>
             convert_loop e cfg n_total (idx + 1) rest
               (AList.update output_subdir converted_files results,
                lg0 @ l @ [(INFO, Msg_generated (length converted_files))], w1)
         | (Inl exn, l, w1) \<Rightarrow>
             convert_loop e cfg n_total (idx + 1) rest
               (AList.update folder_path' [] results,
                lg0 @ l @ [(ERROR, Msg_failed exn)], w1))"

text \<open>
  \<^verbatim>\<open>convert_all\<close>: the folders are scanned when none are known yet; with none found the
  result is the empty dictionary.
\<close>

definition convert_all ::
    "'w env \<Rightarrow> config \<Rightarrow> dnode \<Rightarrow> (string \<times> DicomFolder) list \<Rightarrow> 'w
     \<Rightarrow> (string \<times> string list) list \<times> log \<times> 'w" where
  "convert_all e cfg tree dicom_folders w =
     (let folders = (if dicom_folders = [] then scan_dicom_folders (input_dir cfg) tree
                     else dicom_folders)
      in if folders = [] then ([], [(WARNING, Msg_no_folders)], w)
         else convert_loop e cfg (length folders) 1 folders ([], [], w))"

text \<open>
  A small world for running the definitions: the state lists the entries of each
  directory, \<open>mkdir\<close> fails exactly on the paths in \<open>denied\<close>, and the converter leaves
  with status \<open>status\<close> after writing one compressed volume, named after the last
  segment of its source folder, into the directory given to it after \<^verbatim>\<open>-o\<close>.
\<close>

type_synonym dirs = "(string \<times> string list) list"

definition entries_of :: "string \<Rightarrow> dirs \<Rightarrow> string list" where
  "entries_of d w = (case map_of w d of None \<Rightarrow> [] | Some ns \<Rightarrow> ns)"

definition test_env :: "string list \<Rightarrow> int \<Rightarrow> dirs env" where
  "test_env denied status =
     \<lparr> mkdir = (\<lambda>p w. if p \<in> set denied then (Some (PyException ''PermissionError''), w)
                        else (None, w)),
       subprocess_run = (\<lambda>cmd w.
          let out = cmd ! 6; name = os_path_basename (cmd ! 9) @ ''.nii.gz''
          in (Inr (status, []), AList.update out (entries_of out w @ [name]) w)),
       listing = entries_of,
       convert_with_python = (\<lambda>src out info w. (Inr [], w)) \<rparr>"

section \<open>Notions for stating the properties\<close>

text \<open>A word: a non-empty string without whitespace.\<close>

definition is_word :: "string \<Rightarrow> bool" where
  "is_word x = (x \<noteq> [] \<and> (\<forall>c \<in> set x. \<not> py_isspace c))"

text \<open>
  What a sample of files shows: the data sets of the files that parse, the series
  identifiers among them, and their stripped, non-empty series descriptions.
\<close>

definition parsed_datasets :: "(string \<times> file_entry) list \<Rightarrow> dataset list" where
  "parsed_datasets fs = List.map_filter (\<lambda>(file_path, f). fdataset f) fs"

definition sample_uids :: "(string \<times> file_entry) list \<Rightarrow> string list" where
  "sample_uids fs = List.map_filter SeriesInstanceUID (parsed_datasets fs)"

definition sample_descriptions :: "(string \<times> file_entry) list \<Rightarrow> string list" where
  "sample_descriptions fs =
     filter (\<lambda>desc. desc \<noteq> []) (map py_strip (List.map_filter SeriesDescription (parsed_datasets fs)))"

text \<open>What \<open>posixpath.join\<close> puts between a directory and an entry name.\<close>

definition join_sep :: "string \<Rightarrow> string" where
  "join_sep r = (if r = [] \<or> last r = CHR ''/'' then [] else ''/'')"

text \<open>
  The outcomes of the units of a run, in the order of the loop of \<^verbatim>\<open>convert_all\<close>: what
  \<^verbatim>\<open>_convert_folder\<close> gives for each unit in the state of the world that the units
  before it left behind.
\<close>

fun unit_outcomes ::
    "'w env \<Rightarrow> config \<Rightarrow> (string \<times> DicomFolder) list \<Rightarrow> 'w
     \<Rightarrow> (py_exception + string \<times> string list) list" where
  "unit_outcomes e cfg [] w = []"
| "unit_outcomes e cfg ((folder_path', folder_info) # rest) w =
     (case convert_folder e cfg folder_info w of
        (r, l, w1) \<Rightarrow> r # unit_outcomes e cfg rest w1)"

text \<open>
  The invariant of the conversion loop in flat mode: keys are not repeated, an entry
  under another key than the output root has no files, and as long as no failure was
  logged there is no other key.
\<close>

definition flat_inv :: "config \<Rightarrow> (string \<times> string list) list \<times> log \<times> 'w \<Rightarrow> bool" where
  "flat_inv cfg st = (case st of (results, lg, w) \<Rightarrow>
     distinct (map fst results)
     \<and> (\<forall>(k, v) \<in> set results. k \<noteq> output_dir cfg \<longrightarrow> v = [])
     \<and> ((\<forall>x \<in> set lg. fst x \<noteq> ERROR) \<longrightarrow> fst ` set results \<subseteq> {output_dir cfg}))"

section \<open>A worked example\<close>

text \<open>
  One run of the program, used to evaluate the definitions: the input root \<open>/in\<close> holds
  one imaging file, in the folder \<open>a/b\<close>; \<open>example_unit\<close> is the unit that the scan
  makes of that folder.
\<close>

definition example_config :: config where
  "example_config = \<lparr> input_dir = ''/in'', output_dir = ''/out'', compress = True,
     use_dcm2niix = True, organize_by_folder = True, include_patient_info = True \<rparr>"

definition example_file :: file_entry where
  "example_file = \<lparr> fname = ''IM0001'',
     fmagic = Some ''DICM'',
     fdataset = Some \<lparr> PatientID = Some ''P1'', StudyDate = Some ''20230101'',
       StudyDescription = None, SeriesInstanceUID = Some ''1.2.3'',
       SeriesDescription = Some ''T1'' \<rparr> \<rparr>"

definition example_tree :: dnode where
  "example_tree = Dir [] False True []
     [Dir ''a'' False True [] [Dir ''b'' False True [example_file] []]]"

definition example_unit :: DicomFolder where
  "example_unit = \<lparr> folder_path = ''/in/a/b'', folder_name = ''b'', patient_id = ''P1'',
     study_date = ''20230101'', study_description = [], series_count = 1, file_count = 1,
     series_descriptions = [''T1''] \<rparr>"

text \<open>
  Further inputs: a file that has the signature and on which \<open>pydicom.dcmread\<close> raises
  (a data set declared deflated whose compressed stream is damaged is one), a folder in
  which it comes first, an input root whose only subdirectory is a symbolic link to a
  folder with an imaging file, files of chosen series descriptions, a folder of 150
  files of which the last 50 belong to another series, and a folder with repeated,
  padded and blank descriptions together with the unit the scan makes of it.
\<close>

definition corrupt_file :: file_entry where
  "corrupt_file = \<lparr> fname = ''IM0000'',
     fmagic = Some ''DICM'', fdataset = None \<rparr>"

definition corrupt_tree :: dnode where
  "corrupt_tree = Dir [] False True [corrupt_file, example_file] []"

definition linked_tree :: dnode where
  "linked_tree = Dir [] False True [] [Dir ''s'' True True [example_file] []]"

definition series_file :: "string \<Rightarrow> string \<Rightarrow> file_entry" where
  "series_file name desc = \<lparr> fname = name,
     fmagic = Some ''DICM'',
     fdataset = Some \<lparr> PatientID = Some ''P1'', StudyDate = Some ''20230101'',
       StudyDescription = None, SeriesInstanceUID = Some ''1.2.3'',
       SeriesDescription = Some desc \<rparr> \<rparr>"

definition example_files_150 :: "(string \<times> file_entry) list" where
  "example_files_150 =
     replicate 100 (''/in/a/b/IM0001'', example_file)
     @ replicate 50 (''/in/a/b/IM0101'', series_file ''IM0101'' ''T2'')"

definition example_tree_series :: dnode where
  "example_tree_series = Dir [] False True
     [series_file ''IM1'' ''T2'', series_file ''IM2'' '' T1 '', series_file ''IM3'' ''T1'',
      series_file ''IM4'' ''  '', series_file ''IM5'' ''FLAIR''] []"

definition example_series_unit :: DicomFolder where
  "example_series_unit = \<lparr> folder_path = ''/in'', folder_name = ''in'', patient_id = ''P1'',
     study_date = ''20230101'', study_description = [], series_count = 1, file_count = 5,
     series_descriptions = [''FLAIR'', ''T1'', ''T2''] \<rparr>"

text \<open>
  The small world again, in which starting the converter raises for one source folder.
\<close>

definition failing_env :: "string \<Rightarrow> dirs env" where
  "failing_env bad = (test_env [] 0)\<lparr> subprocess_run := (\<lambda>cmd w.
      if cmd ! 9 = bad then (Inl (PyException ''FileNotFoundError''), w)
      else subprocess_run (test_env [] 0) cmd w) \<rparr>"

text \<open>
  The example once more, with a patient id that begins with a slash: the file, the
  input tree that holds it, and the unit that the scan makes of its folder.
\<close>

definition slash_file :: file_entry where
  "slash_file = \<lparr> fname = ''IM0001'',
     fmagic = Some ''DICM'',
     fdataset = Some \<lparr> PatientID = Some ''/p'', StudyDate = Some ''20230101'',
       StudyDescription = None, SeriesInstanceUID = Some ''1.2.3'',
       SeriesDescription = Some ''T1'' \<rparr> \<rparr>"

definition slash_tree :: dnode where
  "slash_tree = Dir [] False True []
     [Dir ''a'' False True [] [Dir ''b'' False True [slash_file] []]]"

definition slash_unit :: DicomFolder where
  "slash_unit = example_unit\<lparr>patient_id := ''/p''\<rparr>"

section \<open>Properties\<close>

subsection \<open>Dictionaries\<close>

lemma update_entry:
  "(k', v') \<in> set (AList.update k v al) \<Longrightarrow> (k', v') = (k, v) \<or> (k', v') \<in> set al"
  by (induction al) (auto split: if_splits)

lemma update_keys: "fst ` set (AList.update k v al) = insert k (fst ` set al)"
  by (induction al) auto

lemma filter_one_key:
  "distinct (map fst xs) \<Longrightarrow> (\<forall>x \<in> set xs. P x \<longrightarrow> fst x = k) \<Longrightarrow> length (filter P xs) \<le> 1"
proof (induction xs)
  case Nil
  then show ?case by simp
next
  case (Cons x xs)
  show ?case
  proof (cases "P x")
    case True
    with Cons.prems have kx: "fst x = k" by simp
    have "filter P xs = []"
    proof (rule ccontr)
      assume "filter P xs \<noteq> []"
      then obtain y where y: "y \<in> set xs" "P y"
        by (metis filter_False)
      with Cons.prems have "fst y = k" by simp
      with y kx Cons.prems(1) show False by (auto simp: image_iff)
    qed
    with True show ?thesis by simp
  next
    case False
    with Cons show ?thesis by simp
  qed
qed

lemma one_entry:
  "distinct (map fst xs) \<Longrightarrow> map_of xs k = Some v
     \<Longrightarrow> length (filter (\<lambda>(k', v'). k' = k) xs) = 1"
proof (induction xs)
  case Nil
  then show ?case by simp
next
  case (Cons x xs)
  obtain a b where x: "x = (a, b)" by (cases x)
  show ?case
  proof (cases "a = k")
    case True
    with Cons.prems x have "k \<notin> fst ` set xs" by auto
    then have "filter (\<lambda>(k', v'). k' = k) xs = []"
      by (force simp: filter_empty_conv)
    with True x show ?thesis by simp
  next
    case False
    with Cons x show ?thesis by simp
  qed
qed

subsection \<open>Sanitizing\<close>

lemma replace_invalid_fold:
  "foldl (\<lambda>n char. py_replace_char char (CHR ''_'') n) name invalid_chars
     = spec_replace_invalid name"
  by (induction name) (auto simp: invalid_chars_def py_replace_char_def spec_replace_invalid_def)

lemma spec_replace_invalid_chars:
  "c \<in> set (spec_replace_invalid s) \<Longrightarrow> c \<notin> set invalid_chars"
  by (auto simp: spec_replace_invalid_def invalid_chars_def)

lemma space_is_space: "py_isspace (CHR '' '')"
  by (simp add: py_isspace_def whitespace_chars_def)

lemma space_not_invalid: "CHR '' '' \<notin> set invalid_chars"
  by (simp add: invalid_chars_def)

lemma split_ws_words:
  "\<forall>c \<in> set w. \<not> py_isspace c \<Longrightarrow> x \<in> set (split_ws w s) \<Longrightarrow> is_word x \<and> set x \<subseteq> set w \<union> set s"
proof (induction s arbitrary: w)
  case Nil
  then show ?case by (auto simp: is_word_def split: if_splits)
next
  case (Cons c cs)
  show ?case
  proof (cases "py_isspace c")
    case True
    show ?thesis
    proof (cases "x = w \<and> w \<noteq> []")
      case True
      with Cons.prems show ?thesis by (auto simp: is_word_def)
    next
      case False
      with Cons.prems \<open>py_isspace c\<close> have "x \<in> set (split_ws [] cs)"
        by (auto split: if_splits)
      from Cons.IH[OF _ this] show ?thesis by auto
    qed
  next
    case False
    with Cons.prems have "x \<in> set (split_ws (w @ [c]) cs)" by simp
    moreover from False Cons.prems have "\<forall>a \<in> set (w @ [c]). \<not> py_isspace a" by simp
    ultimately have "is_word x \<and> set x \<subseteq> set (w @ [c]) \<union> set cs" by (rule Cons.IH[rotated])
    then show ?thesis by auto
  qed
qed

lemma no_ws_run_word_append:
  "is_word x \<Longrightarrow> no_ws_run (x @ r) = no_ws_run r"
proof (induction x)
  case Nil
  then show ?case by (simp add: is_word_def)
next
  case (Cons a x)
  show ?case
  proof (cases x)
    case Nil
    with Cons.prems show ?thesis by (cases r) (auto simp: is_word_def)
  next
    case (Cons b y)
    with Cons.prems Cons.IH show ?thesis by (auto simp: is_word_def)
  qed
qed

lemma join_words_shape:
  "\<forall>x \<in> set ws. is_word x \<Longrightarrow> ws \<noteq> [] \<Longrightarrow>
     py_join '' '' ws \<noteq> [] \<and> \<not> py_isspace (hd (py_join '' '' ws))
     \<and> \<not> py_isspace (last (py_join '' '' ws)) \<and> no_ws_run (py_join '' '' ws)"
proof (induction "'' ''" ws rule: py_join.induct)
  case 1
  then show ?case by simp
next
  case (2 x)
  then have w: "is_word x" by simp
  from no_ws_run_word_append[OF w, of "[]"] w show ?case
    by (auto simp: is_word_def)
next
  case (3 x y ys)
  then have w: "is_word x" and ih: "py_join '' '' (y # ys) \<noteq> []"
      "\<not> py_isspace (hd (py_join '' '' (y # ys)))"
      "\<not> py_isspace (last (py_join '' '' (y # ys)))" "no_ws_run (py_join '' '' (y # ys))"
    by auto
  obtain b r where r: "py_join '' '' (y # ys) = b # r"
    using ih(1) by (cases "py_join '' '' (y # ys)") auto
  have "no_ws_run (x @ CHR '' '' # b # r)"
    using no_ws_run_word_append[OF w, of "CHR '' '' # b # r"] ih(2,4) r by simp
  with w ih r show ?case by (auto simp: is_word_def)
qed

lemma join_words_chars:
  "c \<in> set (py_join sep ws) \<Longrightarrow> c \<in> set sep \<or> (\<exists>x \<in> set ws. c \<in> set x)"
  by (induction sep ws rule: py_join.induct) auto

lemma join_words_empty:
  "\<forall>x \<in> set ws. is_word x \<Longrightarrow> (py_join '' '' ws = []) = (ws = [])"
  using join_words_shape[of ws] by auto

lemma rstrip_id: "s = [] \<or> \<not> py_isspace (last s) \<Longrightarrow> py_rstrip s = s"
  by (cases s rule: rev_cases) (auto simp: py_rstrip_def)

lemma strip_id: "s = [] \<or> (\<not> py_isspace (hd s) \<and> \<not> py_isspace (last s)) \<Longrightarrow> py_strip s = s"
  by (cases s) (auto simp: py_strip_def rstrip_id)

lemma strip_join_words:
  assumes "\<forall>x \<in> set ws. is_word x"
  shows "py_strip (py_join '' '' ws) = py_join '' '' ws"
proof (cases "ws = []")
  case True
  then show ?thesis by (simp add: py_strip_def py_rstrip_def)
next
  case False
  with join_words_shape[OF assms] show ?thesis by (intro strip_id) simp
qed

lemma collapse_in_run_hd:
  "spec_collapse_ws True s = [] \<or> \<not> py_isspace (hd (spec_collapse_ws True s))"
  by (induction s) auto

lemma strip_collapse_flag:
  "py_strip (spec_collapse_ws b s) = py_strip (spec_collapse_ws True s)"
  by (cases s) (auto simp: py_strip_def space_is_space)

lemma rstrip_space_cons:
  "py_rstrip (CHR '' '' # X) = (if py_rstrip X = [] then [] else CHR '' '' # py_rstrip X)"
  by (auto simp: py_rstrip_def dropWhile_append space_is_space dropWhile_eq_Nil_conv)

lemma strip_word_append:
  assumes "is_word w"
  shows "py_strip (w @ Y) = w @ py_rstrip Y"
proof -
  from assms obtain a v where w: "w = a # v" and a: "\<not> py_isspace a"
    by (cases w) (auto simp: is_word_def)
  from assms have l: "\<not> py_isspace (last w)" and ne: "w \<noteq> []"
    by (auto simp: is_word_def)
  have "py_strip (w @ Y) = py_rstrip (w @ Y)"
    using w a by (simp add: py_strip_def)
  also have "\<dots> = w @ py_rstrip Y"
  proof (cases "\<forall>y \<in> set Y. py_isspace y")
    case True
    have "dropWhile py_isspace (rev w) = rev w"
      using l ne by (cases w rule: rev_cases) auto
    with True show ?thesis
      by (simp add: py_rstrip_def dropWhile_append)
  next
    case False
    then show ?thesis by (auto simp: py_rstrip_def dropWhile_append)
  qed
  finally show ?thesis .
qed

lemma join_split_collapse:
  "\<forall>c \<in> set w. \<not> py_isspace c \<Longrightarrow>
     py_join '' '' (split_ws w s) = py_strip (w @ spec_collapse_ws (w = []) s)"
proof (induction s arbitrary: w)
  case Nil
  have "w = [] \<or> (\<not> py_isspace (hd w) \<and> \<not> py_isspace (last w))"
    using Nil by (cases "w = []") (simp_all add: hd_in_set last_in_set)
  then have "py_strip w = w" by (rule strip_id)
  then show ?case by simp
next
  case (Cons c cs)
  show ?case
  proof (cases "py_isspace c")
    case False
    with Cons.prems have "\<forall>a \<in> set (w @ [c]). \<not> py_isspace a" by simp
    from Cons.IH[OF this] False show ?thesis by simp
  next
    case True
    define X where "X = spec_collapse_ws True cs"
    define ws where "ws = split_ws [] cs"
    have ih: "py_join '' '' ws = py_strip X"
      using Cons.IH[of "[]"] by (simp add: X_def ws_def)
    show ?thesis
    proof (cases "w = []")
      case True
      with \<open>py_isspace c\<close> ih show ?thesis by (simp add: X_def ws_def)
    next
      case False
      with Cons.prems have w: "is_word w" by (simp add: is_word_def)
      have words: "\<forall>x \<in> set ws. is_word x"
        using split_ws_words[of "[]" _ cs] by (auto simp: ws_def)
      have "py_strip X = py_rstrip X"
        using collapse_in_run_hd[of cs] by (cases X) (auto simp: X_def py_strip_def)
      with ih have j: "py_join '' '' ws = py_rstrip X" by simp
      have e: "(ws = []) = (py_rstrip X = [])"
        using join_words_empty[OF words] j by simp
      have "py_join '' '' (w # ws) = w @ (if py_rstrip X = [] then [] else CHR '' '' # py_rstrip X)"
        using e j by (cases ws) auto
      also have "\<dots> = py_strip (w @ CHR '' '' # X)"
        by (simp only: strip_word_append[OF w] rstrip_space_cons)
      finally show ?thesis
        using \<open>py_isspace c\<close> False by (simp add: X_def ws_def)
    qed
  qed
qed

lemma clean_path_name_words:
  "clean_path_name name = py_join '' '' (py_split (spec_replace_invalid name))"
proof -
  have "\<forall>x \<in> set (py_split (spec_replace_invalid name)). is_word x"
    using split_ws_words[of "[]"] by (auto simp: py_split_def)
  from strip_join_words[OF this] show ?thesis
    by (simp add: clean_path_name_def replace_invalid_fold Let_def)
qed

text \<open>
  C9. The sanitizer does what the specification says, replacing the seven characters,
  collapsing whitespace runs and trimming, and so its result has none of the seven
  characters, no two adjacent whitespace characters, and no whitespace at either end.
\<close>

theorem clean_path_name_sanitizes:
  "clean_path_name name = spec_sanitize name
   \<and> (\<forall>c \<in> set (clean_path_name name). c \<notin> set invalid_chars)
   \<and> no_ws_run (clean_path_name name)
   \<and> (clean_path_name name \<noteq> [] \<longrightarrow>
        \<not> py_isspace (hd (clean_path_name name)) \<and> \<not> py_isspace (last (clean_path_name name)))"
proof -
  define ws where "ws = py_split (spec_replace_invalid name)"
  have cw: "clean_path_name name = py_join '' '' ws"
    by (simp add: clean_path_name_words ws_def)
  have words: "\<forall>x \<in> set ws. is_word x"
    and chars: "\<forall>x \<in> set ws. set x \<subseteq> set (spec_replace_invalid name)"
    using split_ws_words[of "[]" _ "spec_replace_invalid name"]
    by (auto simp: py_split_def ws_def)
  have one: "clean_path_name name = spec_sanitize name"
    using join_split_collapse[of "[]" "spec_replace_invalid name"]
          strip_collapse_flag[of False "spec_replace_invalid name"]
    by (simp add: cw ws_def py_split_def spec_sanitize_def)
  have two: "\<forall>c \<in> set (clean_path_name name). c \<notin> set invalid_chars"
  proof
    fix c assume "c \<in> set (clean_path_name name)"
    then have "c \<in> set '' '' \<or> (\<exists>x \<in> set ws. c \<in> set x)"
      unfolding cw by (rule join_words_chars)
    then show "c \<notin> set invalid_chars"
      using chars spec_replace_invalid_chars space_not_invalid by auto
  qed
  have three: "no_ws_run (clean_path_name name)"
    using join_words_shape[OF words] by (cases "ws = []") (simp_all add: cw)
  have four: "clean_path_name name \<noteq> [] \<longrightarrow>
        \<not> py_isspace (hd (clean_path_name name)) \<and> \<not> py_isspace (last (clean_path_name name))"
    using join_words_shape[OF words] by (cases "ws = []") (simp_all add: cw)
  from one two three four show ?thesis by (intro conjI)
qed

theorem clean_path_name_sanitizes_witness:
  "clean_path_name ''  a<b   c?  /x y  '' = ''a_b c_ /x y''
   \<and> spec_sanitize ''  a<b   c?  /x y  '' = ''a_b c_ /x y''
   \<and> set ''a_b c_ /x y'' \<inter> set invalid_chars = {}
   \<and> no_ws_run ''a_b c_ /x y''"
proof -
  have v: "clean_path_name ''  a<b   c?  /x y  '' = ''a_b c_ /x y''"
    by code_simp
  have v2: "spec_sanitize ''  a<b   c?  /x y  '' = ''a_b c_ /x y''"
    by code_simp
  show ?thesis
    using clean_path_name_sanitizes[of "''  a<b   c?  /x y  ''"]
    unfolding v v2 by blast
qed

subsection \<open>Scanning\<close>

lemma sample_uids_Cons:
  "sample_uids ((p, f) # fs) =
     (case fdataset f of None \<Rightarrow> sample_uids fs
      | Some d \<Rightarrow> (case SeriesInstanceUID d of None \<Rightarrow> sample_uids fs
                    | Some uid \<Rightarrow> uid # sample_uids fs))"
  by (simp add: sample_uids_def parsed_datasets_def map_filter_simps split: option.splits)

lemma sample_descriptions_Cons:
  "sample_descriptions ((p, f) # fs) =
     (case fdataset f of None \<Rightarrow> sample_descriptions fs
      | Some d \<Rightarrow> (case SeriesDescription d of None \<Rightarrow> sample_descriptions fs
                    | Some sd \<Rightarrow> if py_strip sd \<noteq> [] then py_strip sd # sample_descriptions fs
                                 else sample_descriptions fs))"
  by (simp add: sample_descriptions_def parsed_datasets_def map_filter_simps split: option.splits)

lemma series_loop_sets:
  "series_loop fs (ss, us) = (ss', us') \<Longrightarrow>
     set ss' = set ss \<union> set (sample_descriptions fs)
     \<and> set us' = set us \<union> set (sample_uids fs)
     \<and> (distinct ss \<longrightarrow> distinct ss') \<and> (distinct us \<longrightarrow> distinct us')"
proof (induction fs arbitrary: ss us)
  case Nil
  then show ?case by (simp add: sample_descriptions_def sample_uids_def parsed_datasets_def map_filter_simps)
next
  case (Cons a fs)
  obtain p f where a: "a = (p, f)" by (cases a)
  show ?case
  proof (cases "fdataset f")
    case None
    with Cons.prems a have "series_loop fs (ss, us) = (ss', us')" by simp
    from Cons.IH[OF this] None a show ?thesis
      by (simp add: sample_uids_Cons sample_descriptions_Cons)
  next
    case (Some d)
    define us1 where "us1 = (case SeriesInstanceUID d of None \<Rightarrow> us
                              | Some uid \<Rightarrow> List.insert uid us)"
    define ss1 where "ss1 = (case SeriesDescription d of None \<Rightarrow> ss
                              | Some sd \<Rightarrow> let desc = py_strip sd
                                           in if desc \<noteq> [] then List.insert desc ss else ss)"
    from Cons.prems a Some have "series_loop fs (ss1, us1) = (ss', us')"
      by (simp add: Let_def us1_def ss1_def)
    from Cons.IH[OF this] have ih: "set ss' = set ss1 \<union> set (sample_descriptions fs)"
      "set us' = set us1 \<union> set (sample_uids fs)"
      "distinct ss1 \<longrightarrow> distinct ss'" "distinct us1 \<longrightarrow> distinct us'"
      by auto
    have s1: "set ss1 \<union> set (sample_descriptions fs) = set ss \<union> set (sample_descriptions (a # fs))"
      by (auto simp: ss1_def a Some sample_descriptions_Cons Let_def split: option.splits)
    have u1: "set us1 \<union> set (sample_uids fs) = set us \<union> set (sample_uids (a # fs))"
      by (auto simp: us1_def a Some sample_uids_Cons split: option.splits)
    have d1: "distinct ss \<longrightarrow> distinct ss1" "distinct us \<longrightarrow> distinct us1"
      by (auto simp: ss1_def us1_def Let_def split: option.splits)
    from ih s1 u1 d1 show ?thesis by simp
  qed
qed

lemma sample_descriptions_nonempty: "[] \<notin> set (sample_descriptions fs)"
  by (simp add: sample_descriptions_def)

lemma analyze_dicom_folder_Some:
  assumes "dicom_files = (p0, f0) # rest" and "fdataset f0 = Some dcm"
  shows "\<exists>u. analyze_dicom_folder path dicom_files = Some u
     \<and> folder_path u = path
     \<and> folder_name u = os_path_basename path
     \<and> file_count u = length dicom_files
     \<and> patient_id u = getattr_strip (PatientID dcm) ''Unknown''
     \<and> study_date u = getattr_strip (StudyDate dcm) []
     \<and> study_description u = getattr_strip (StudyDescription dcm) []
     \<and> set (series_descriptions u) = set (sample_descriptions (take 100 dicom_files))
     \<and> distinct (series_descriptions u) \<and> sorted (series_descriptions u)
     \<and> series_count u = (if sample_uids (take 100 dicom_files) = []
                          then card (set (sample_descriptions (take 100 dicom_files)))
                          else card (set (sample_uids (take 100 dicom_files))))"
proof -
  obtain ss us where loop: "series_loop (take 100 dicom_files) ([], []) = (ss, us)"
    by (cases "series_loop (take 100 dicom_files) ([], [])")
  from series_loop_sets[OF loop] have s: "set ss = set (sample_descriptions (take 100 dicom_files))"
    "set us = set (sample_uids (take 100 dicom_files))" "distinct ss" "distinct us"
    by auto
  have c: "length us = card (set us)" "length ss = card (set ss)"
    using s(3,4) by (simp_all add: distinct_card)
  have e: "(us = []) = (sample_uids (take 100 dicom_files) = [])"
    using s(2) by (metis set_empty)
  show ?thesis
    using assms loop s c e by (simp add: analyze_dicom_folder_def)
qed

lemma analyze_dicom_folder_None:
  "dicom_files = (p0, f0) # rest \<Longrightarrow> fdataset f0 = None
     \<Longrightarrow> analyze_dicom_folder path dicom_files = None"
  by (simp add: analyze_dicom_folder_def)

lemma analyze_dicom_folder_take:
  assumes "take 100 fs' = take 100 fs"
  shows "analyze_dicom_folder path fs' =
           map_option (\<lambda>u. u\<lparr>file_count := length fs'\<rparr>) (analyze_dicom_folder path fs)"
proof (cases fs)
  case Nil
  with assms have "fs' = []" by simp
  with Nil show ?thesis by (simp add: analyze_dicom_folder_def)
next
  case (Cons a rest)
  with assms obtain rest' where fs': "fs' = a # rest'" by (cases fs') auto
  obtain p0 f0 where a: "a = (p0, f0)" by (cases a)
  show ?thesis
    using assms by (simp add: analyze_dicom_folder_def Cons fs' a split: option.splits prod.splits)
qed

text \<open>
  C4. For a folder with more than 100 imaging files whose first file parses, the unit
  has the total number of files as its file count, takes patient id, study date and
  study description from the first file, and draws its series descriptions and its
  series count from the first 100 files alone: any list of files with the same first
  100 gives the same unit up to the file count.
\<close>

theorem analyze_samples_first_100:
  assumes long: "100 < length dicom_files"
    and first: "fdataset (snd (hd dicom_files)) = Some dcm"
  shows "\<exists>u. analyze_dicom_folder path dicom_files = Some u
     \<and> file_count u = length dicom_files
     \<and> patient_id u = getattr_strip (PatientID dcm) ''Unknown''
     \<and> study_date u = getattr_strip (StudyDate dcm) []
     \<and> study_description u = getattr_strip (StudyDescription dcm) []
     \<and> set (series_descriptions u) = set (sample_descriptions (take 100 dicom_files))
     \<and> series_count u = (if sample_uids (take 100 dicom_files) = []
                          then card (set (sample_descriptions (take 100 dicom_files)))
                          else card (set (sample_uids (take 100 dicom_files))))
     \<and> (\<forall>fs'. take 100 fs' = take 100 dicom_files \<longrightarrow>
           analyze_dicom_folder path fs' = Some (u\<lparr>file_count := length fs'\<rparr>))"
proof -
  from long obtain p0 f0 rest where fs: "dicom_files = (p0, f0) # rest"
    by (cases dicom_files) auto
  with first have f0: "fdataset f0 = Some dcm" by simp
  from analyze_dicom_folder_Some[OF fs f0, of path] obtain u where
    u: "analyze_dicom_folder path dicom_files = Some u"
      "file_count u = length dicom_files"
      "patient_id u = getattr_strip (PatientID dcm) ''Unknown''"
      "study_date u = getattr_strip (StudyDate dcm) []"
      "study_description u = getattr_strip (StudyDescription dcm) []"
      "set (series_descriptions u) = set (sample_descriptions (take 100 dicom_files))"
      "series_count u = (if sample_uids (take 100 dicom_files) = []
                          then card (set (sample_descriptions (take 100 dicom_files)))
                          else card (set (sample_uids (take 100 dicom_files))))"
    by blast
  have "\<forall>fs'. take 100 fs' = take 100 dicom_files \<longrightarrow>
           analyze_dicom_folder path fs' = Some (u\<lparr>file_count := length fs'\<rparr>)"
    using analyze_dicom_folder_take[of _ dicom_files path] u(1) by simp
  with u show ?thesis by blast
qed

lemma endswith_slash: "endswith a ''/'' = (a \<noteq> [] \<and> last a = CHR ''/'')"
  by (cases a rule: rev_cases) (simp_all add: endswith_def)

lemma os_path_join_valid: "valid_name n \<Longrightarrow> os_path_join r n = r @ join_sep r @ n"
  by (cases n) (auto simp: valid_name_def os_path_join_def join_sep_def endswith_slash)

lemma join_sep_child:
  assumes "valid_name n"
  shows "join_sep (r @ join_sep r @ n) = ''/''"
proof -
  from assms have ne: "n \<noteq> []" and ns: "CHR ''/'' \<notin> set n"
    by (auto simp: valid_name_def)
  then have "last n \<noteq> CHR ''/''" by (metis last_in_set)
  with ne show ?thesis by (simp add: join_sep_def)
qed

lemma name_prefix_unique:
  assumes "CHR ''/'' \<notin> set n" "CHR ''/'' \<notin> set n'"
    and "s = [] \<or> hd s = CHR ''/''" "s' = [] \<or> hd s' = CHR ''/''"
    and "n @ s = n' @ s'"
  shows "n = n'"
proof -
  have t: "takeWhile (\<lambda>c. c \<noteq> CHR ''/'') (m @ x) = m"
    if "CHR ''/'' \<notin> set m" "x = [] \<or> hd x = CHR ''/''" for m x
  proof -
    have "takeWhile (\<lambda>c. c \<noteq> CHR ''/'') x = []"
      using that(2) by (cases x) auto
    moreover have "takeWhile (\<lambda>c. c \<noteq> CHR ''/'') (m @ x) = m @ takeWhile (\<lambda>c. c \<noteq> CHR ''/'') x"
      using that(1) by (intro takeWhile_append2) auto
    ultimately show ?thesis by simp
  qed
  from t[OF assms(1,3)] t[OF assms(2,4)] assms(5) show ?thesis by simp
qed

lemma walk_paths:
  "wf_tree t \<Longrightarrow> p \<in> set (map fst (os_walk r t)) \<Longrightarrow>
     p = r \<or> (\<exists>d \<in> set (dsubs t). \<exists>s. p = r @ join_sep r @ dname d @ s
                \<and> (s = [] \<or> hd s = CHR ''/''))"
  "\<forall>d \<in> set ds. valid_name (dname d) \<and> wf_tree d \<Longrightarrow> p \<in> set (map fst (os_walk_subs r ds)) \<Longrightarrow>
     \<exists>d \<in> set ds. \<exists>s. p = r @ join_sep r @ dname d @ s \<and> (s = [] \<or> hd s = CHR ''/'')"
proof (induction r t and r ds arbitrary: p and p rule: os_walk_os_walk_subs.induct)
  case (1 topdir n l ok fs ds)
  show ?case
  proof (cases ok)
    case True
    with 1 show ?thesis by auto
  next
    case False
    with "1.prems" show ?thesis by simp
  qed
next
  case (2 topdir)
  then show ?case by simp
next
  case (3 topdir d ds)
  from "3.prems"(1) have vd: "valid_name (dname d)" and wd: "wf_tree d"
    and rest: "\<forall>d \<in> set ds. valid_name (dname d) \<and> wf_tree d"
    by auto
  let ?r' = "topdir @ join_sep topdir @ dname d"
  have j: "os_path_join topdir (dname d) = ?r'"
    by (rule os_path_join_valid[OF vd])
  from "3.prems"(2) consider
    (here) "\<not> dislink d" "p \<in> set (map fst (os_walk (os_path_join topdir (dname d)) d))"
    | (later) "p \<in> set (map fst (os_walk_subs topdir ds))"
    by (auto split: if_splits)
  then show ?case
  proof cases
    case here
    from "3.IH"(1)[OF here(1) wd here(2)] show ?thesis
    proof
      assume "p = os_path_join topdir (dname d)"
      with j have "p = topdir @ join_sep topdir @ dname d @ []" by simp
      then show ?thesis by (intro bexI[of _ d] exI[of _ "[]"]) simp_all
    next
      assume "\<exists>d' \<in> set (dsubs d). \<exists>s. p = os_path_join topdir (dname d) @
          join_sep (os_path_join topdir (dname d)) @ dname d' @ s \<and> (s = [] \<or> hd s = CHR ''/'')"
      then obtain d' s where "p = ?r' @ join_sep ?r' @ dname d' @ s"
        unfolding j by blast
      then have "p = topdir @ join_sep topdir @ dname d @ (''/'' @ dname d' @ s)"
        by (simp add: join_sep_child[OF vd])
      then show ?thesis by (intro bexI[of _ d] exI[of _ "''/'' @ dname d' @ s"]) simp_all
    qed
  next
    case later
    from "3.IH"(2)[OF rest later] show ?thesis by auto
  qed
qed

lemma walk_distinct:
  "wf_tree t \<Longrightarrow> distinct (map fst (os_walk r t))"
  "\<forall>d \<in> set ds. valid_name (dname d) \<and> wf_tree d \<Longrightarrow> distinct (map dname ds)
     \<Longrightarrow> distinct (map fst (os_walk_subs r ds))"
proof (induction r t and r ds rule: os_walk_os_walk_subs.induct)
  case (1 topdir n l ok fs ds)
  show ?case
  proof (cases ok)
    case False
    then show ?thesis by simp
  next
    case True
    from "1.prems" have sub: "\<forall>d \<in> set ds. valid_name (dname d) \<and> wf_tree d"
      and dn: "distinct (map dname ds)"
      by auto
    have "topdir \<notin> set (map fst (os_walk_subs topdir ds))"
    proof
      assume "topdir \<in> set (map fst (os_walk_subs topdir ds))"
      from walk_paths(2)[OF sub this] obtain d s where "d \<in> set ds"
        "topdir = topdir @ join_sep topdir @ dname d @ s" by blast
      with sub show False by (auto simp: valid_name_def)
    qed
    with "1.IH"[OF True sub dn] True show ?thesis by simp
  qed
next
  case (2 topdir)
  then show ?case by simp
next
  case (3 topdir d ds)
  from "3.prems" have vd: "valid_name (dname d)" and wd: "wf_tree d"
    and rest: "\<forall>d \<in> set ds. valid_name (dname d) \<and> wf_tree d"
    and dn: "distinct (map dname ds)" and fresh: "dname d \<notin> dname ` set ds"
    by auto
  show ?case
  proof (cases "dislink d")
    case True
    with "3.IH"(2)[OF rest dn] show ?thesis by simp
  next
    case False
    have disj: "set (map fst (os_walk (os_path_join topdir (dname d)) d))
        \<inter> set (map fst (os_walk_subs topdir ds)) = {}"
    proof (rule ccontr)
      assume "\<not> ?thesis"
      then obtain p where a: "p \<in> set (map fst (os_walk (os_path_join topdir (dname d)) d))"
        and b: "p \<in> set (map fst (os_walk_subs topdir ds))" by blast
      have "p \<in> set (map fst (os_walk_subs topdir [d]))" using a False by simp
      from walk_paths(2)[OF _ this] vd wd obtain s where
        ps: "p = topdir @ join_sep topdir @ dname d @ s" "s = [] \<or> hd s = CHR ''/''" by auto
      from walk_paths(2)[OF rest b] obtain d' s' where d': "d' \<in> set ds"
        and ps': "p = topdir @ join_sep topdir @ dname d' @ s'" "s' = [] \<or> hd s' = CHR ''/''"
        by blast
      from ps(1) ps'(1) have "dname d @ s = dname d' @ s'" by simp
      from name_prefix_unique[OF _ _ ps(2) ps'(2) this] vd rest d'
      have "dname d = dname d'" by (auto simp: valid_name_def)
      with fresh d' show False by auto
    qed
    from "3.IH"(1)[OF False wd] "3.IH"(2)[OF rest dn] disj False show ?thesis by simp
  qed
qed

lemma walk_subs_member:
  "d \<in> set ds \<Longrightarrow> \<not> dislink d
     \<Longrightarrow> set (os_walk (os_path_join r (dname d)) d) \<subseteq> set (os_walk_subs r ds)"
  by (induction ds) auto

lemma walked_in_walk:
  "walked r t p d \<Longrightarrow> (p, map dname (dsubs d), dfiles d) \<in> set (os_walk r t)"
proof (induction rule: walked.induct)
  case (walk_self t topdir)
  then show ?case by (cases t) simp
next
  case (walk_sub t d topdir p x)
  then show ?case using walk_subs_member[of d "dsubs t" topdir] by (cases t) auto
qed

lemma walk_entry_walked:
  "(p, dirs, files) \<in> set (os_walk r t)
     \<Longrightarrow> \<exists>d. walked r t p d \<and> dirs = map dname (dsubs d) \<and> files = dfiles d"
  "(p, dirs, files) \<in> set (os_walk_subs r ds)
     \<Longrightarrow> \<exists>c \<in> set ds. \<not> dislink c \<and> (\<exists>d. walked (os_path_join r (dname c)) c p d
            \<and> dirs = map dname (dsubs d) \<and> files = dfiles d)"
proof (induction r t and r ds rule: os_walk_os_walk_subs.induct)
  case (1 topdir n l ok fs ds)
  then have ok: ok by (auto split: if_splits)
  from "1.prems" ok consider (here) "p = topdir" "dirs = map dname ds" "files = fs"
    | (below) "(p, dirs, files) \<in> set (os_walk_subs topdir ds)"
    by auto
  then show ?case
  proof cases
    case here
    have "walked topdir (Dir n l ok fs ds) topdir (Dir n l ok fs ds)"
      by (rule walk_self) (simp add: ok)
    with here show ?thesis by auto
  next
    case below
    from "1.IH"[OF ok below] obtain c d where c: "c \<in> set ds" "\<not> dislink c"
      and d: "walked (os_path_join topdir (dname c)) c p d"
         "dirs = map dname (dsubs d)" "files = dfiles d"
      by blast
    have "walked topdir (Dir n l ok fs ds) p d"
    proof (rule walk_sub[of _ c])
      show "dlistable (Dir n l ok fs ds)" by (simp add: ok)
      show "c \<in> set (dsubs (Dir n l ok fs ds))" using c(1) by simp
      show "\<not> dislink c" by (rule c(2))
      show "walked (os_path_join topdir (dname c)) c p d" by (rule d(1))
    qed
    with d(2,3) show ?thesis by blast
  qed
next
  case (2 topdir)
  then show ?case by simp
next
  case (3 topdir d ds)
  from "3.prems" consider
    (here) "\<not> dislink d" "(p, dirs, files) \<in> set (os_walk (os_path_join topdir (dname d)) d)"
    | (later) "(p, dirs, files) \<in> set (os_walk_subs topdir ds)"
    by (auto split: if_splits)
  then show ?case
  proof cases
    case here
    from "3.IH"(1)[OF here] here(1) show ?thesis by auto
  next
    case later
    from "3.IH"(2)[OF later] show ?thesis by auto
  qed
qed

lemma walked_reachable: "walked r t p d \<Longrightarrow> reachable r t p d"
  by (induction rule: walked.induct) (auto intro: reach_self reach_sub)

lemma dicom_files_of_Cons:
  "filter is_dicom_file files = f # fs \<Longrightarrow>
     dicom_files_of root files
       = (os_path_join root (fname f), f) # map (\<lambda>f. (os_path_join root (fname f), f)) fs"
  by (simp add: dicom_files_of_def)

lemma length_dicom_files_of:
  "length (dicom_files_of root files) = length (filter is_dicom_file files)"
  by (simp add: dicom_files_of_def)

lemma scan_loop_other:
  "p \<notin> fst ` set walk \<Longrightarrow> map_of (scan_loop walk acc) p = map_of acc p"
proof (induction walk arbitrary: acc)
  case Nil
  then show ?case by simp
next
  case (Cons a walk)
  obtain root dirs files where a: "a = (root, dirs, files)" by (cases a)
  with Cons.prems have ne: "root \<noteq> p" and rest: "p \<notin> fst ` set walk" by auto
  show ?case
    using Cons.IH[OF rest] ne
    by (simp add: a Let_def update_conv' split: option.splits)
qed

lemma scan_loop_lookup:
  "distinct (map fst walk) \<Longrightarrow> (p, dirs, files) \<in> set walk \<Longrightarrow>
     map_of (scan_loop walk acc) p =
       (if dicom_files_of p files = [] then map_of acc p
        else case analyze_dicom_folder p (dicom_files_of p files) of
               None \<Rightarrow> map_of acc p | Some u \<Rightarrow> Some u)"
proof (induction walk arbitrary: acc)
  case Nil
  then show ?case by simp
next
  case (Cons a walk)
  obtain root dirs' files' where a: "a = (root, dirs', files')" by (cases a)
  show ?case
  proof (cases "a = (p, dirs, files)")
    case True
    with Cons.prems(1) have "p \<notin> fst ` set walk" by auto
    from scan_loop_other[OF this] True show ?thesis
      by (simp add: Let_def update_conv' split: option.splits)
  next
    case False
    with Cons.prems have mem: "(p, dirs, files) \<in> set walk" and d: "distinct (map fst walk)"
      by auto
    with Cons.prems(1) a have ne: "root \<noteq> p" by (auto simp: image_iff)
    show ?thesis
      using Cons.IH[OF d mem] ne
      by (simp add: a Let_def update_conv' split: option.splits)
  qed
qed

lemma scan_loop_distinct:
  "distinct (map fst acc) \<Longrightarrow> distinct (map fst (scan_loop walk acc))"
proof (induction walk arbitrary: acc)
  case Nil
  then show ?case by simp
next
  case (Cons a walk)
  obtain root dirs files where a: "a = (root, dirs, files)" by (cases a)
  show ?case
    using Cons.IH Cons.prems
    by (simp add: a Let_def distinct_update split: option.splits)
qed

lemma scan_loop_values:
  assumes "\<And>root files u. analyze_dicom_folder root files = Some u \<Longrightarrow> P u"
  shows "\<forall>(k, u) \<in> set acc. P u \<Longrightarrow> (p, u) \<in> set (scan_loop walk acc) \<Longrightarrow> P u"
proof (induction walk arbitrary: acc)
  case Nil
  then show ?case by auto
next
  case (Cons a walk)
  obtain root dirs files where a: "a = (root, dirs, files)" by (cases a)
  show ?case
  proof (cases "dicom_files_of root files \<noteq> []
      \<and> analyze_dicom_folder root (dicom_files_of root files) \<noteq> None")
    case True
    then obtain v where v: "analyze_dicom_folder root (dicom_files_of root files) = Some v"
      by auto
    have "\<forall>(k, u) \<in> set (AList.update root v acc). P u"
      using Cons.prems(1) assms[OF v] by (auto dest: update_entry)
    from Cons.IH[OF this] Cons.prems(2) True v a show ?thesis by (simp add: Let_def)
  next
    case False
    with Cons.prems(2) a have "(p, u) \<in> set (scan_loop walk acc)"
      by (auto simp: Let_def split: option.splits if_splits)
    from Cons.IH[OF Cons.prems(1) this] show ?thesis .
  qed
qed

lemma analyze_descriptions:
  assumes "analyze_dicom_folder root files = Some u"
  shows "distinct (series_descriptions u) \<and> [] \<notin> set (series_descriptions u)
     \<and> sorted (series_descriptions u)"
proof (cases files)
  case Nil
  with assms show ?thesis by (simp add: analyze_dicom_folder_def)
next
  case (Cons a rest)
  obtain p0 f0 where a: "a = (p0, f0)" by (cases a)
  show ?thesis
  proof (cases "fdataset f0")
    case None
    with assms Cons a show ?thesis by (simp add: analyze_dicom_folder_def)
  next
    case (Some dcm)
    from analyze_dicom_folder_Some[of files p0 f0 rest dcm root] Cons a Some assms
    show ?thesis using sample_descriptions_nonempty[of "take 100 files"] by auto
  qed
qed

lemma scan_loop_entry:
  "(p, u) \<in> set (scan_loop walk acc) \<Longrightarrow>
     (p, u) \<in> set acc
     \<or> (\<exists>dirs files. (p, dirs, files) \<in> set walk \<and> dicom_files_of p files \<noteq> []
           \<and> analyze_dicom_folder p (dicom_files_of p files) = Some u)"
proof (induction walk arbitrary: acc)
  case Nil
  then show ?case by simp
next
  case (Cons a walk)
  obtain root dirs files where a: "a = (root, dirs, files)" by (cases a)
  show ?case
  proof (cases "dicom_files_of root files \<noteq> []
      \<and> analyze_dicom_folder root (dicom_files_of root files) \<noteq> None")
    case True
    then obtain v where v: "analyze_dicom_folder root (dicom_files_of root files) = Some v"
      by auto
    from Cons.prems True v a have "(p, u) \<in> set (scan_loop walk (AList.update root v acc))"
      by (simp add: Let_def)
    from Cons.IH[OF this] show ?thesis
    proof (elim disjE)
      assume "(p, u) \<in> set (AList.update root v acc)"
      then have "(p, u) = (root, v) \<or> (p, u) \<in> set acc" by (rule update_entry)
      with True v a show ?thesis by auto
    next
      assume "\<exists>dirs files. (p, dirs, files) \<in> set walk \<and> dicom_files_of p files \<noteq> []
           \<and> analyze_dicom_folder p (dicom_files_of p files) = Some u"
      then show ?thesis by auto
    qed
  next
    case False
    with Cons.prems a have "(p, u) \<in> set (scan_loop walk acc)"
      by (auto simp: Let_def split: option.splits if_splits)
    from Cons.IH[OF this] show ?thesis by auto
  qed
qed

lemma scan_entry_walked:
  assumes "(path, u) \<in> set (scan_dicom_folders input_dir' tree)"
  shows "\<exists>d. walked input_dir' tree path d \<and> filter is_dicom_file (dfiles d) \<noteq> []
     \<and> analyze_dicom_folder path (dicom_files_of path (dfiles d)) = Some u"
proof -
  from scan_loop_entry[of path u "os_walk input_dir' tree" "[]"] assms
  obtain dirs files where w: "(path, dirs, files) \<in> set (os_walk input_dir' tree)"
    and ne: "dicom_files_of path files \<noteq> []"
    and an: "analyze_dicom_folder path (dicom_files_of path files) = Some u"
    by (auto simp: scan_dicom_folders_def)
  from walk_entry_walked(1)[OF w] obtain d where d: "walked input_dir' tree path d"
    "files = dfiles d" by blast
  from ne have "filter is_dicom_file files \<noteq> []" by (simp add: dicom_files_of_def)
  with d an show ?thesis by blast
qed

text \<open>
  C10. The series descriptions of every unit in a scan result have no repetition and
  no empty string, and are sorted in the lexicographic order of strings.
\<close>

theorem scan_series_descriptions_sorted_distinct:
  assumes "(path, u) \<in> set (scan_dicom_folders input_dir' tree)"
  shows "distinct (series_descriptions u) \<and> [] \<notin> set (series_descriptions u)
     \<and> sorted (series_descriptions u)"
proof (rule scan_loop_values[where acc = "[]" and walk = "os_walk input_dir' tree" and p = path])
  show "\<forall>(k, u) \<in> set []. distinct (series_descriptions u) \<and> [] \<notin> set (series_descriptions u)
     \<and> sorted (series_descriptions u)" by simp
  show "(path, u) \<in> set (scan_loop (os_walk input_dir' tree) [])"
    using assms by (simp add: scan_dicom_folders_def)
qed (rule analyze_descriptions)

text \<open>
  C3, as amended. For every directory that the walk of the input root enters (the root
  itself when it can be listed, and below an entered directory every subdirectory that
  is no symbolic link and can be listed) and whose imaging files are \<open>f # fs\<close>: when
  \<open>f\<close>, the first of them, parses, the scan result has exactly one entry under the
  directory's path, a unit of that path whose file count is the number of imaging
  files of the directory; when \<open>f\<close> does not parse, the scan result has no entry under
  that path.
\<close>

theorem scan_keeps_parsed_directories:
  assumes wf: "wf_tree tree"
    and r: "walked input_dir' tree path d"
    and im: "filter is_dicom_file (dfiles d) = f # fs"
  shows "(fdataset f \<noteq> None \<longrightarrow>
           (\<exists>u. map_of (scan_dicom_folders input_dir' tree) path = Some u
                \<and> folder_path u = path
                \<and> file_count u = length (filter is_dicom_file (dfiles d)))
           \<and> length (filter (\<lambda>(k, u). k = path) (scan_dicom_folders input_dir' tree)) = 1)
       \<and> (fdataset f = None \<longrightarrow> map_of (scan_dicom_folders input_dir' tree) path = None)"
proof -
  let ?files = "dicom_files_of path (dfiles d)"
  have mem: "(path, map dname (dsubs d), dfiles d) \<in> set (os_walk input_dir' tree)"
    by (rule walked_in_walk[OF r])
  have dw: "distinct (map fst (os_walk input_dir' tree))"
    by (rule walk_distinct(1)[OF wf])
  have cons: "?files = (os_path_join path (fname f), f) # map (\<lambda>f. (os_path_join path (fname f), f)) fs"
    by (rule dicom_files_of_Cons[OF im])
  have look: "map_of (scan_dicom_folders input_dir' tree) path = analyze_dicom_folder path ?files"
    using scan_loop_lookup[OF dw mem, of "[]"] cons
    by (simp add: scan_dicom_folders_def split: option.splits)
  have dist: "distinct (map fst (scan_dicom_folders input_dir' tree))"
    unfolding scan_dicom_folders_def by (rule scan_loop_distinct) simp
  have none: "fdataset f = None \<longrightarrow> map_of (scan_dicom_folders input_dir' tree) path = None"
    using analyze_dicom_folder_None[OF cons, of path] look by simp
  have some: "fdataset f \<noteq> None \<longrightarrow>
           (\<exists>u. map_of (scan_dicom_folders input_dir' tree) path = Some u
                \<and> folder_path u = path
                \<and> file_count u = length (filter is_dicom_file (dfiles d)))
           \<and> length (filter (\<lambda>(k, u). k = path) (scan_dicom_folders input_dir' tree)) = 1"
  proof
    assume "fdataset f \<noteq> None"
    then obtain dcm where dcm: "fdataset f = Some dcm" by auto
    from analyze_dicom_folder_Some[OF cons dcm, of path] obtain u where
      u: "analyze_dicom_folder path ?files = Some u" "folder_path u = path"
         "file_count u = length ?files" by blast
    from u(1) look have m: "map_of (scan_dicom_folders input_dir' tree) path = Some u" by simp
    from one_entry[OF dist m] m u(2,3)
    show "(\<exists>u. map_of (scan_dicom_folders input_dir' tree) path = Some u
                \<and> folder_path u = path
                \<and> file_count u = length (filter is_dicom_file (dfiles d)))
           \<and> length (filter (\<lambda>(k, u). k = path) (scan_dicom_folders input_dir' tree)) = 1"
      by (simp add: length_dicom_files_of)
  qed
  from some none show ?thesis by (rule conjI)
qed

text \<open>
  C3 as stated fails in two ways. The input root \<open>corrupt_tree\<close> has two imaging
  files, the first with the signature but unparseable, and its scan result is empty.
  The input root \<open>linked_tree\<close> has a subdirectory \<open>s\<close> that is a symbolic link to a
  folder with a well-formed imaging file: the directory is reachable under the path
  \<open>/in/s\<close>, the walk lists it and does not enter it, and the scan result is empty.
\<close>

theorem unparseable_first_file_omits_directory:
  "reachable ''/in'' corrupt_tree ''/in'' corrupt_tree
   \<and> filter is_dicom_file (dfiles corrupt_tree) = [corrupt_file, example_file]
   \<and> map_of (scan_dicom_folders ''/in'' corrupt_tree) ''/in'' = None
   \<and> scan_dicom_folders ''/in'' corrupt_tree = []
   \<and> reachable ''/in'' linked_tree ''/in/s'' (Dir ''s'' True True [example_file] [])
   \<and> filter is_dicom_file (dfiles (Dir ''s'' True True [example_file] [])) = [example_file]
   \<and> fdataset example_file \<noteq> None
   \<and> os_walk ''/in'' linked_tree = [(''/in'', [''s''], [])]
   \<and> map_of (scan_dicom_folders ''/in'' linked_tree) ''/in/s'' = None
   \<and> scan_dicom_folders ''/in'' linked_tree = []"
proof -
  have a: "reachable ''/in'' corrupt_tree ''/in'' corrupt_tree" by (rule reach_self)
  have b: "filter is_dicom_file (dfiles corrupt_tree) = [corrupt_file, example_file]"
    by code_simp
  have c: "scan_dicom_folders ''/in'' corrupt_tree = []" by code_simp
  have j: "os_path_join ''/in'' ''s'' = ''/in/s''" by code_simp
  have d: "reachable ''/in'' linked_tree ''/in/s'' (Dir ''s'' True True [example_file] [])"
    unfolding linked_tree_def
  proof (rule reach_sub[of "Dir ''s'' True True [example_file] []"])
    show "Dir ''s'' True True [example_file] []
        \<in> set (dsubs (Dir [] False True [] [Dir ''s'' True True [example_file] []]))"
      by simp
    show "reachable (os_path_join ''/in'' (dname (Dir ''s'' True True [example_file] [])))
        (Dir ''s'' True True [example_file] []) ''/in/s'' (Dir ''s'' True True [example_file] [])"
      by (simp add: j reach_self)
  qed
  have e: "filter is_dicom_file (dfiles (Dir ''s'' True True [example_file] [])) = [example_file]"
    by code_simp
  have f: "fdataset example_file \<noteq> None" by (simp add: example_file_def)
  have g: "os_walk ''/in'' linked_tree = [(''/in'', [''s''], [])]" by code_simp
  have h: "scan_dicom_folders ''/in'' linked_tree = []" by code_simp
  have c': "map_of (scan_dicom_folders ''/in'' corrupt_tree) ''/in'' = None" by (simp add: c)
  have h': "map_of (scan_dicom_folders ''/in'' linked_tree) ''/in/s'' = None" by (simp add: h)
  from a b c' c d e f g h' h show ?thesis by (intro conjI)
qed

theorem scan_series_descriptions_sorted_distinct_witness:
  "(''/in'', example_series_unit) \<in> set (scan_dicom_folders ''/in'' example_tree_series)
   \<and> series_descriptions example_series_unit = [''FLAIR'', ''T1'', ''T2'']
   \<and> distinct (series_descriptions example_series_unit)
   \<and> [] \<notin> set (series_descriptions example_series_unit)
   \<and> sorted (series_descriptions example_series_unit)"
proof -
  have val: "scan_dicom_folders ''/in'' example_tree_series = [(''/in'', example_series_unit)]"
    by code_simp
  then have mem: "(''/in'', example_series_unit) \<in> set (scan_dicom_folders ''/in'' example_tree_series)"
    by simp
  from scan_series_descriptions_sorted_distinct[OF mem] mem show ?thesis
    by (simp add: example_series_unit_def)
qed

theorem scan_keeps_parsed_directories_witness:
  "wf_tree example_tree
   \<and> walked ''/in'' example_tree ''/in/a/b'' (Dir ''b'' False True [example_file] [])
   \<and> filter is_dicom_file (dfiles (Dir ''b'' False True [example_file] [])) = [example_file]
   \<and> map_of (scan_dicom_folders ''/in'' example_tree) ''/in/a/b'' = Some example_unit
   \<and> file_count example_unit = 1
   \<and> length (filter (\<lambda>(k, u). k = ''/in/a/b'') (scan_dicom_folders ''/in'' example_tree)) = 1"
proof -
  let ?b = "Dir ''b'' False True [example_file] []"
  let ?a = "Dir ''a'' False True [] [?b]"
  have wf: "wf_tree example_tree" by code_simp
  have j1: "os_path_join ''/in'' ''a'' = ''/in/a''" by code_simp
  have j2: "os_path_join ''/in/a'' ''b'' = ''/in/a/b''" by code_simp
  have leaf: "walked ''/in/a/b'' ?b ''/in/a/b'' ?b"
    by (rule walk_self) simp
  have inner: "walked ''/in/a'' ?a ''/in/a/b'' ?b"
  proof (rule walk_sub[of _ ?b])
    show "dlistable ?a" by simp
    show "?b \<in> set (dsubs ?a)" by simp
    show "\<not> dislink ?b" by simp
    show "walked (os_path_join ''/in/a'' (dname ?b)) ?b ''/in/a/b'' ?b"
      using leaf by (simp add: j2)
  qed
  have r: "walked ''/in'' example_tree ''/in/a/b'' ?b"
    unfolding example_tree_def
  proof (rule walk_sub[of _ ?a])
    show "dlistable (Dir [] False True [] [?a])" by simp
    show "?a \<in> set (dsubs (Dir [] False True [] [?a]))" by simp
    show "\<not> dislink ?a" by simp
    show "walked (os_path_join ''/in'' (dname ?a)) ?a ''/in/a/b'' ?b"
      using inner by (simp add: j1)
  qed
  have im: "filter is_dicom_file (dfiles ?b) = example_file # []"
    by code_simp
  have some: "fdataset example_file \<noteq> None" by (simp add: example_file_def)
  have val: "scan_dicom_folders ''/in'' example_tree = [(''/in/a/b'', example_unit)]"
    by code_simp
  have fc: "file_count example_unit = 1" by (simp add: example_unit_def)
  have m: "map_of (scan_dicom_folders ''/in'' example_tree) ''/in/a/b'' = Some example_unit"
    by (simp add: val)
  from scan_keeps_parsed_directories[OF wf r im] some
  have one: "length (filter (\<lambda>(k, u). k = ''/in/a/b'') (scan_dicom_folders ''/in'' example_tree)) = 1"
    by blast
  from wf r im m fc one show ?thesis by (intro conjI)
qed

theorem analyze_samples_first_100_witness:
  "100 < length example_files_150
   \<and> fdataset (snd (hd example_files_150)) = fdataset example_file
   \<and> analyze_dicom_folder ''/in/a/b'' example_files_150
       = Some (example_unit\<lparr>file_count := 150\<rparr>)"
proof -
  have long: "100 < length example_files_150"
    by (simp add: example_files_150_def)
  have first: "fdataset (snd (hd example_files_150))
      = Some \<lparr> PatientID = Some ''P1'', StudyDate = Some ''20230101'',
       StudyDescription = None, SeriesInstanceUID = Some ''1.2.3'',
       SeriesDescription = Some ''T1'' \<rparr>"
    by (simp add: example_files_150_def example_file_def)
  have same: "fdataset (snd (hd example_files_150)) = fdataset example_file"
    by (simp add: example_files_150_def)
  from analyze_samples_first_100[OF long first, of "''/in/a/b''"] obtain u where
    u: "analyze_dicom_folder ''/in/a/b'' example_files_150 = Some u"
       "\<forall>fs'. take 100 fs' = take 100 example_files_150 \<longrightarrow>
           analyze_dicom_folder ''/in/a/b'' fs' = Some (u\<lparr>file_count := length fs'\<rparr>)"
       "file_count u = length example_files_150"
    by blast
  have t: "take 100 (replicate 100 (''/in/a/b/IM0001'', example_file)) = take 100 example_files_150"
    by (simp add: example_files_150_def)
  have small: "analyze_dicom_folder ''/in/a/b'' (replicate 100 (''/in/a/b/IM0001'', example_file))
      = Some (example_unit\<lparr>file_count := 100\<rparr>)"
    by code_simp
  from u(2) t have "analyze_dicom_folder ''/in/a/b'' (replicate 100 (''/in/a/b/IM0001'', example_file))
      = Some (u\<lparr>file_count := 100\<rparr>)"
    by (metis length_replicate)
  with small have "u\<lparr>file_count := 100\<rparr> = example_unit\<lparr>file_count := 100\<rparr>" by simp
  then have "(u\<lparr>file_count := 100\<rparr>)\<lparr>file_count := 150\<rparr>
      = (example_unit\<lparr>file_count := 100\<rparr>)\<lparr>file_count := 150\<rparr>" by simp
  then have e: "u\<lparr>file_count := 150\<rparr> = example_unit\<lparr>file_count := 150\<rparr>" by simp
  have "file_count u = 150" using u(3) by (simp add: example_files_150_def)
  then have "u = u\<lparr>file_count := 150\<rparr>" by (cases u) simp
  with e have "u = example_unit\<lparr>file_count := 150\<rparr>" by simp
  with u(1) long same show ?thesis by simp
qed

subsection \<open>Resolving the output directory\<close>

lemma clean_path_name_chars:
  assumes "c \<in> set (clean_path_name s)"
  shows "c = CHR '' '' \<or> c = CHR ''_'' \<or> c \<in> set s"
proof -
  have "c \<in> set '' '' \<or> (\<exists>x \<in> set (py_split (spec_replace_invalid s)). c \<in> set x)"
    using assms unfolding clean_path_name_words by (rule join_words_chars)
  moreover have "set x \<subseteq> set (spec_replace_invalid s)"
    if "x \<in> set (py_split (spec_replace_invalid s))" for x
    using split_ws_words[of "[]" x "spec_replace_invalid s"] that by (simp add: py_split_def)
  ultimately have "c = CHR '' '' \<or> c \<in> set (spec_replace_invalid s)" by auto
  then show ?thesis by (auto simp: spec_replace_invalid_def)
qed

lemma basename_no_slash: "CHR ''/'' \<notin> set (os_path_basename p)"
proof
  assume "CHR ''/'' \<in> set (os_path_basename p)"
  then have "CHR ''/'' \<in> set (takeWhile (\<lambda>c. c \<noteq> CHR ''/'') (rev p))"
    by (simp add: os_path_basename_def)
  then show False by (auto dest: set_takeWhileD)
qed

lemma dirname_shape:
  "os_path_dirname x = [] \<or> os_path_dirname x = replicate (length (os_path_dirname x)) (CHR ''/'')
     \<or> last (os_path_dirname x) \<noteq> CHR ''/''"
proof -
  define hd' where "hd' = rev (dropWhile (\<lambda>c. c \<noteq> CHR ''/'') (rev x))"
  show ?thesis
  proof (cases "hd' \<noteq> [] \<and> hd' \<noteq> replicate (length hd') (CHR ''/'')")
    case False
    then have "os_path_dirname x = hd'"
      by (auto simp: os_path_dirname_def hd'_def Let_def)
    with False show ?thesis by auto
  next
    case True
    then have d: "os_path_dirname x = rev (dropWhile (\<lambda>c. c = CHR ''/'') (rev hd'))"
      by (auto simp: os_path_dirname_def hd'_def Let_def)
    show ?thesis
    proof (cases "dropWhile (\<lambda>c. c = CHR ''/'') (rev hd')")
      case Nil
      with d show ?thesis by simp
    next
      case (Cons a as)
      then have "a \<noteq> CHR ''/''" using hd_dropWhile[of "\<lambda>c. c = CHR ''/''" "rev hd'"] by auto
      with d Cons show ?thesis by simp
    qed
  qed
qed

lemma basename_dirname_plain:
  assumes "CHR ''/'' \<notin> set n"
  shows "os_path_basename n = n" "os_path_dirname n = []"
proof -
  have t: "takeWhile (\<lambda>c. c \<noteq> CHR ''/'') (rev n) = rev n"
    using assms by (auto simp: takeWhile_eq_all_conv)
  have d: "dropWhile (\<lambda>c. c \<noteq> CHR ''/'') (rev n) = []"
    using assms by (auto simp: dropWhile_eq_Nil_conv)
  show "os_path_basename n = n" by (simp add: os_path_basename_def t)
  show "os_path_dirname n = []" by (simp add: os_path_dirname_def d)
qed

lemma basename_dirname_join:
  assumes n: "CHR ''/'' \<notin> set n"
    and p: "p \<noteq> []" "p = replicate (length p) (CHR ''/'') \<or> last p \<noteq> CHR ''/''"
  shows "os_path_basename (os_path_join p n) = n" "os_path_dirname (os_path_join p n) = p"
proof -
  have ns: "\<not> startswith n ''/''" using n by (cases n) auto
  have tk: "takeWhile (\<lambda>c. c \<noteq> CHR ''/'') (rev n @ CHR ''/'' # r) = rev n" for r
    using n by (subst takeWhile_append2) auto
  have dr: "dropWhile (\<lambda>c. c \<noteq> CHR ''/'') (rev n @ CHR ''/'' # r) = CHR ''/'' # r" for r
    using n by (subst dropWhile_append2) auto
  show "os_path_basename (os_path_join p n) = n" "os_path_dirname (os_path_join p n) = p"
  proof -
    consider (slashes) "p = replicate (length p) (CHR ''/'')" | (plain) "last p \<noteq> CHR ''/''"
      using p(2) by blast
    then have "os_path_basename (os_path_join p n) = n \<and> os_path_dirname (os_path_join p n) = p"
    proof cases
      case slashes
      then obtain k where k: "p = replicate (Suc k) (CHR ''/'')"
        using p(1) by (cases "length p") auto
      have l: "last p = CHR ''/''" using k by simp
      have j: "os_path_join p n = p @ n"
        using ns p(1) l by (simp add: os_path_join_def endswith_slash)
      have r: "rev p = CHR ''/'' # replicate k (CHR ''/'')"
        using k by (simp add: replicate_append_same)
      have b: "os_path_basename (p @ n) = n"
        by (simp add: os_path_basename_def r tk)
      have "rev (dropWhile (\<lambda>c. c \<noteq> CHR ''/'') (rev (p @ n))) = p"
        using dr[of "replicate k (CHR ''/'')"] r by (simp add: k replicate_append_same)
      then have d: "os_path_dirname (p @ n) = p"
        using slashes by (simp add: os_path_dirname_def Let_def)
      from j b d show ?thesis by simp
    next
      case plain
      have j: "os_path_join p n = p @ ''/'' @ n"
        using ns p(1) plain by (simp add: os_path_join_def endswith_slash)
      have b: "os_path_basename (p @ ''/'' @ n) = n"
        by (simp add: os_path_basename_def tk)
      have h: "rev (dropWhile (\<lambda>c. c \<noteq> CHR ''/'') (rev (p @ ''/'' @ n))) = p @ ''/''"
        using dr[of "rev p"] by simp
      have nr: "p @ ''/'' \<noteq> replicate (length (p @ ''/'')) (CHR ''/'')"
      proof
        assume "p @ ''/'' = replicate (length (p @ ''/'')) (CHR ''/'')"
        then have "set (p @ ''/'') \<subseteq> {CHR ''/''}" by (metis set_replicate_conv_if subset_refl empty_subsetI)
        then have "set p \<subseteq> {CHR ''/''}" by simp
        moreover have "last p \<in> set p" using p(1) by (rule last_in_set)
        ultimately show False using plain by blast
      qed
      have dw: "dropWhile (\<lambda>c. c = CHR ''/'') (rev (p @ ''/'')) = rev p"
        using p(1) plain by (cases p rule: rev_cases) auto
      have d: "os_path_dirname (p @ ''/'' @ n) = p"
        unfolding os_path_dirname_def Let_def h using nr dw by simp
      from j b d show ?thesis by simp
    qed
    then show "os_path_basename (os_path_join p n) = n" "os_path_dirname (os_path_join p n) = p"
      by simp_all
  qed
qed

lemma new_folder_name_no_slash:
  assumes "CHR ''/'' \<notin> set (patient_id u)" "CHR ''/'' \<notin> set (study_date u)"
    "CHR ''/'' \<notin> set leaf"
  shows "CHR ''/'' \<notin> set (new_folder_name u leaf)"
proof
  assume "CHR ''/'' \<in> set (new_folder_name u leaf)"
  then have "CHR ''/'' \<in> set ''_'' \<or> CHR ''/'' \<in> set (clean_path_name (patient_id u))
      \<or> CHR ''/'' \<in> set (study_date u) \<or> CHR ''/'' \<in> set leaf"
    unfolding new_folder_name_def Let_def
    by (auto dest!: join_words_chars split: if_splits)
  with assms show False by (auto dest: clean_path_name_chars)
qed

text \<open>
  The resolver in folder mode with patient information, for a patient id and a study
  date without a slash. When the patient id is not part of the sanitized relative path,
  the last segment of the resolved path is the underscore-join of the sanitized patient
  id, the study date if there is one, and the former last segment, and what precedes it
  is unchanged. When the patient id is part of the sanitized relative path, that path
  is kept as it is.
\<close>

lemma resolver_replaces_leaf:
  assumes org: "organize_by_folder cfg" and inc: "include_patient_info cfg"
    and pid: "patient_id u \<noteq> []"
    and rel: "rel = clean_path_name (os_path_relpath (folder_path u) (input_dir cfg))"
    and absent: "\<not> py_contains rel (patient_id u)"
    and ps: "CHR ''/'' \<notin> set (patient_id u)" and ds: "CHR ''/'' \<notin> set (study_date u)"
  shows "os_path_basename (resolved_rel_path cfg u)
           = py_join ''_'' ([clean_path_name (patient_id u)]
               @ (if study_date u \<noteq> [] then [study_date u] else [])
               @ [os_path_basename rel])
       \<and> os_path_dirname (resolved_rel_path cfg u) = os_path_dirname rel
       \<and> get_output_subdir cfg u = path_truediv (output_dir cfg) (resolved_rel_path cfg u)"
proof -
  let ?name = "new_folder_name u (os_path_basename rel)"
  have nm: "?name = py_join ''_'' ([clean_path_name (patient_id u)]
               @ (if study_date u \<noteq> [] then [study_date u] else [])
               @ [os_path_basename rel])"
    using pid by (simp add: new_folder_name_def)
  have ns: "CHR ''/'' \<notin> set ?name"
    by (rule new_folder_name_no_slash[OF ps ds basename_no_slash])
  have r: "resolved_rel_path cfg u =
      (if os_path_dirname rel \<noteq> [] then os_path_join (os_path_dirname rel) ?name else ?name)"
    using inc pid absent rel by (simp add: resolved_rel_path_def Let_def)
  have "os_path_basename (resolved_rel_path cfg u) = ?name
      \<and> os_path_dirname (resolved_rel_path cfg u) = os_path_dirname rel"
  proof (cases "os_path_dirname rel = []")
    case True
    with r basename_dirname_plain[OF ns] show ?thesis by simp
  next
    case False
    from dirname_shape[of rel] False
    have sh: "os_path_dirname rel = replicate (length (os_path_dirname rel)) (CHR ''/'')
        \<or> last (os_path_dirname rel) \<noteq> CHR ''/''" by blast
    from basename_dirname_join[OF ns False sh] r False show ?thesis by simp
  qed
  with nm org show ?thesis by (simp add: get_output_subdir_def)
qed

lemma resolver_keeps_path_with_patient_id:
  assumes "organize_by_folder cfg"
    and "rel = clean_path_name (os_path_relpath (folder_path u) (input_dir cfg))"
    and "py_contains rel (patient_id u)"
  shows "resolved_rel_path cfg u = rel
       \<and> get_output_subdir cfg u = path_truediv (output_dir cfg) rel"
  using assms by (simp add: resolved_rel_path_def get_output_subdir_def Let_def)

text \<open>
  C5. A patient id that begins with a slash is not covered: the joined name is an
  absolute path, so joining it to the parent directory gives the name alone and joining
  that to the output root gives the name alone again. For the unit of folder \<open>a/b\<close>
  with patient id \<open>/p\<close> the parent \<open>a\<close> is lost with the leaf, and the destination
  \<open>/p_20230101_b\<close> is outside the output root \<open>/out\<close>.
\<close>

theorem leading_slash_patient_id_discards_parent:
  "scan_dicom_folders (input_dir example_config) slash_tree = [(''/in/a/b'', slash_unit)]
   \<and> organize_by_folder example_config \<and> include_patient_info example_config
   \<and> patient_id slash_unit = ''/p''
   \<and> clean_path_name (os_path_relpath (folder_path slash_unit) (input_dir example_config)) = ''a/b''
   \<and> \<not> py_contains ''a/b'' (patient_id slash_unit)
   \<and> new_folder_name slash_unit (os_path_basename ''a/b'') = ''/p_20230101_b''
   \<and> resolved_rel_path example_config slash_unit = ''/p_20230101_b''
   \<and> get_output_subdir example_config slash_unit = ''/p_20230101_b''"
  by code_simp

subsection \<open>Converting\<close>

lemma convert_folder_flat_key:
  "\<not> organize_by_folder cfg \<Longrightarrow> convert_folder e cfg info w = (Inr (k, fs), l, w1)
   \<Longrightarrow> k = output_dir cfg"
  by (auto simp: convert_folder_def get_output_subdir_def Let_def
           split: prod.splits option.splits sum.splits if_splits)

lemma convert_loop_flat_inv:
  "\<not> organize_by_folder cfg \<Longrightarrow> flat_inv cfg st
   \<Longrightarrow> flat_inv cfg (convert_loop e cfg t i folders st)"
proof (induction folders arbitrary: st i)
  case Nil
  then show ?case by simp
next
  case (Cons a folders)
  obtain p info where a: "a = (p, info)" by (cases a)
  obtain results lg w where st: "st = (results, lg, w)" by (cases st)
  obtain r l w1 where cf: "convert_folder e cfg info w = (r, l, w1)"
    by (cases "convert_folder e cfg info w")
  from Cons.prems(2) st have inv: "distinct (map fst results)"
      "\<forall>(k, v) \<in> set results. k \<noteq> output_dir cfg \<longrightarrow> v = []"
      "(\<forall>x \<in> set lg. fst x \<noteq> ERROR) \<longrightarrow> fst ` set results \<subseteq> {output_dir cfg}"
    by (auto simp: flat_inv_def)
  show ?case
  proof (cases r)
    case (Inl exn)
    have "flat_inv cfg (AList.update p [] results,
            (lg @ [(INFO, Msg_converting i t (folder_name info))]) @ l @ [(ERROR, Msg_failed exn)], w1)"
      using inv by (auto simp: flat_inv_def distinct_update dest: update_entry)
    from Cons.IH[OF Cons.prems(1) this] show ?thesis
      using a st cf Inl by simp
  next
    case (Inr b)
    obtain k fs where b: "b = (k, fs)" by (cases b)
    have k: "k = output_dir cfg"
      using convert_folder_flat_key[OF Cons.prems(1), of e info w k fs l w1] cf Inr b by simp
    have "flat_inv cfg (AList.update k fs results,
            (lg @ [(INFO, Msg_converting i t (folder_name info))]) @ l @ [(INFO, Msg_generated (length fs))], w1)"
      using inv k by (auto simp: flat_inv_def distinct_update update_keys dest: update_entry)
    from Cons.IH[OF Cons.prems(1) this] show ?thesis
      using a st cf Inr b by simp
  qed
qed

lemma convert_loop_failures_keep:
  "\<forall>o' \<in> set (unit_outcomes e cfg folders w). isl o' \<Longrightarrow> key \<notin> fst ` set folders
   \<Longrightarrow> map_of (fst (convert_loop e cfg t i folders (results, lg, w))) key = map_of results key"
proof (induction folders arbitrary: results lg w i)
  case Nil
  then show ?case by simp
next
  case (Cons a folders)
  obtain p info where a: "a = (p, info)" by (cases a)
  obtain r l w1 where cf: "convert_folder e cfg info w = (r, l, w1)"
    by (cases "convert_folder e cfg info w")
  from Cons.prems(1) a cf obtain exn where r: "r = Inl exn"
    and rest: "\<forall>o' \<in> set (unit_outcomes e cfg folders w1). isl o'"
    by (cases r) auto
  from Cons.prems(2) a have ne: "p \<noteq> key" and nk: "key \<notin> fst ` set folders" by auto
  have "map_of (fst (convert_loop e cfg t (i + 1) folders
          (AList.update p [] results,
           (lg @ [(INFO, Msg_converting i t (folder_name info))]) @ l @ [(ERROR, Msg_failed exn)], w1))) key
        = map_of (AList.update p [] results) key"
    by (rule Cons.IH[OF rest nk])
  with ne show ?case by (simp add: a cf r update_conv')
qed

lemma convert_loop_last_success:
  "\<not> organize_by_folder cfg
   \<Longrightarrow> unit_outcomes e cfg folders w = pre @ Inr (k, fs) # post
   \<Longrightarrow> \<forall>o' \<in> set post. isl o'
   \<Longrightarrow> output_dir cfg \<notin> fst ` set (drop (Suc (length pre)) folders)
   \<Longrightarrow> k = output_dir cfg
      \<and> map_of (fst (convert_loop e cfg t i folders (results, lg, w))) (output_dir cfg) = Some fs"
proof (induction folders arbitrary: results lg w i pre)
  case Nil
  then show ?case by simp
next
  case (Cons a folders)
  obtain p info where a: "a = (p, info)" by (cases a)
  obtain r l w1 where cf: "convert_folder e cfg info w = (r, l, w1)"
    by (cases "convert_folder e cfg info w")
  from Cons.prems(2) a cf have outs: "r # unit_outcomes e cfg folders w1 = pre @ Inr (k, fs) # post"
    by simp
  show ?case
  proof (cases pre)
    case Nil
    with outs have r: "r = Inr (k, fs)" and post: "post = unit_outcomes e cfg folders w1" by simp_all
    have k: "k = output_dir cfg"
      using convert_folder_flat_key[OF Cons.prems(1), of e info w k fs l w1] cf r by simp
    from Cons.prems(4) Nil have nk: "output_dir cfg \<notin> fst ` set folders" by simp
    from Cons.prems(3) post have fl: "\<forall>o' \<in> set (unit_outcomes e cfg folders w1). isl o'" by simp
    have "map_of (fst (convert_loop e cfg t (i + 1) folders
            (AList.update k fs results,
             (lg @ [(INFO, Msg_converting i t (folder_name info))]) @ l @ [(INFO, Msg_generated (length fs))], w1)))
            (output_dir cfg)
        = map_of (AList.update k fs results) (output_dir cfg)"
      by (rule convert_loop_failures_keep[OF fl nk])
    with k show ?thesis by (simp add: a cf r update_conv')
  next
    case (Cons b pre')
    with outs have rb: "r = b" and rest: "unit_outcomes e cfg folders w1 = pre' @ Inr (k, fs) # post"
      by simp_all
    from Cons.prems(4) Cons have nk: "output_dir cfg \<notin> fst ` set (drop (Suc (length pre')) folders)"
      by simp
    note ih = Cons.IH[OF Cons.prems(1) rest Cons.prems(3) nk]
    show ?thesis
    proof (cases r)
      case (Inl exn)
      from ih[of "i + 1" "AList.update p [] results"
          "(lg @ [(INFO, Msg_converting i t (folder_name info))]) @ l @ [(ERROR, Msg_failed exn)]"]
      show ?thesis by (simp add: a cf Inl)
    next
      case (Inr c)
      obtain k' fs' where c: "c = (k', fs')" by (cases c)
      from ih[of "i + 1" "AList.update k' fs' results"
          "(lg @ [(INFO, Msg_converting i t (folder_name info))]) @ l @ [(INFO, Msg_generated (length fs'))]"]
      show ?thesis by (simp add: a cf Inr c)
    qed
  qed
qed

lemma convert_loop_all_success:
  "\<not> organize_by_folder cfg
   \<Longrightarrow> \<forall>o' \<in> set (unit_outcomes e cfg folders w). \<not> isl o'
   \<Longrightarrow> folders \<noteq> []
   \<Longrightarrow> results = [] \<or> (\<exists>v. results = [(output_dir cfg, v)])
   \<Longrightarrow> fst (convert_loop e cfg t i folders (results, lg, w))
         = [(output_dir cfg, snd (projr (last (unit_outcomes e cfg folders w))))]"
proof (induction folders arbitrary: results lg w i)
  case Nil
  then show ?case by simp
next
  case (Cons a folders)
  obtain p info where a: "a = (p, info)" by (cases a)
  obtain r l w1 where cf: "convert_folder e cfg info w = (r, l, w1)"
    by (cases "convert_folder e cfg info w")
  from Cons.prems(2) a cf obtain k fs where r: "r = Inr (k, fs)"
    and rest: "\<forall>o' \<in> set (unit_outcomes e cfg folders w1). \<not> isl o'"
    by (cases r) auto
  have k: "k = output_dir cfg"
    using convert_folder_flat_key[OF Cons.prems(1), of e info w k fs l w1] cf r by simp
  from Cons.prems(4) k have upd: "AList.update k fs results = [(output_dir cfg, fs)]"
    by auto
  show ?case
  proof (cases "folders = []")
    case True
    with upd show ?thesis by (simp add: a cf r)
  next
    case False
    then have ne: "unit_outcomes e cfg folders w1 \<noteq> []"
      by (cases folders) (auto split: prod.splits)
    from Cons.IH[OF Cons.prems(1) rest False, of "[(output_dir cfg, fs)]" "i + 1"
        "(lg @ [(INFO, Msg_converting i t (folder_name info))]) @ l @ [(INFO, Msg_generated (length fs))]"]
    have "fst (convert_loop e cfg t (i + 1) folders
            ([(output_dir cfg, fs)],
             (lg @ [(INFO, Msg_converting i t (folder_name info))]) @ l @ [(INFO, Msg_generated (length fs))], w1))
          = [(output_dir cfg, snd (projr (last (unit_outcomes e cfg folders w1))))]"
      by simp
    with upd ne show ?thesis by (simp add: a cf r)
  qed
qed


text \<open>
  C6. In flat mode every unit resolves to the output root, and a unit that converts is
  stored under that key. Of a run, with the outcomes of its units in order: when a unit
  converts, every unit after it fails, and none of those later units has the output
  root as the path of its source folder, the results hold exactly one entry under the
  output root, and it is the file list of that last converted unit, whatever the units
  converted before it had stored; when every unit converts, that entry is the whole of
  the results. In any run the results have no repeated key, at most one entry under
  the output root, at most one entry with files, every entry under another key is a
  failure entry with no files, and a run in which no unit failed leaves at most one
  entry.
\<close>

theorem flat_mode_single_success_entry:
  assumes flat: "\<not> organize_by_folder cfg"
    and run: "convert_all e cfg tree dicom_folders w = (results, lg, w')"
    and fo: "folders = (if dicom_folders = [] then scan_dicom_folders (input_dir cfg) tree
                        else dicom_folders)"
  shows "(\<forall>info. get_output_subdir cfg info = output_dir cfg)
       \<and> (\<forall>info w0 k fs l w1. convert_folder e cfg info w0 = (Inr (k, fs), l, w1)
            \<longrightarrow> k = output_dir cfg)
       \<and> (\<forall>pre k fs post.
             unit_outcomes e cfg folders w = pre @ Inr (k, fs) # post
             \<and> (\<forall>o' \<in> set post. isl o')
             \<and> output_dir cfg \<notin> fst ` set (drop (Suc (length pre)) folders)
            \<longrightarrow> k = output_dir cfg
                \<and> map_of results (output_dir cfg) = Some fs
                \<and> length (filter (\<lambda>(k, v). k = output_dir cfg) results) = 1)
       \<and> (folders \<noteq> [] \<and> (\<forall>o' \<in> set (unit_outcomes e cfg folders w). \<not> isl o')
            \<longrightarrow> results = [(output_dir cfg, snd (projr (last (unit_outcomes e cfg folders w))))])
       \<and> distinct (map fst results)
       \<and> (\<forall>(k, v) \<in> set results. k \<noteq> output_dir cfg \<longrightarrow> v = [])
       \<and> length (filter (\<lambda>(k, v). k = output_dir cfg) results) \<le> 1
       \<and> length (filter (\<lambda>(k, v). v \<noteq> []) results) \<le> 1
       \<and> ((\<forall>x \<in> set lg. fst x \<noteq> ERROR) \<longrightarrow> length results \<le> 1)"
proof -
  have init: "flat_inv cfg (([], [], w) :: (string \<times> string list) list \<times> log \<times> 'a)"
    by (simp add: flat_inv_def)
  have loop: "folders \<noteq> [] \<Longrightarrow>
      convert_loop e cfg (length folders) 1 folders ([], [], w) = (results, lg, w')"
    using run by (simp add: convert_all_def fo Let_def)
  have "flat_inv cfg (results, lg, w')"
  proof (cases "folders = []")
    case True
    with run have "results = []" "lg = [(WARNING, Msg_no_folders)]"
      by (simp_all add: convert_all_def fo Let_def)
    then show ?thesis by (simp add: flat_inv_def)
  next
    case False
    with convert_loop_flat_inv[OF flat init, of e "length folders" 1 folders] loop
    show ?thesis by simp
  qed
  then have d: "distinct (map fst results)"
    and e: "\<forall>(k, v) \<in> set results. k \<noteq> output_dir cfg \<longrightarrow> v = []"
    and s: "(\<forall>x \<in> set lg. fst x \<noteq> ERROR) \<longrightarrow> fst ` set results \<subseteq> {output_dir cfg}"
    by (auto simp: flat_inv_def)
  have one: "length (filter (\<lambda>(k, v). k = output_dir cfg) results) \<le> 1"
    by (rule filter_one_key[OF d, where k = "output_dir cfg"]) auto
  have two: "length (filter (\<lambda>(k, v). v \<noteq> []) results) \<le> 1"
    by (rule filter_one_key[OF d, where k = "output_dir cfg"]) (use e in auto)
  have three: "(\<forall>x \<in> set lg. fst x \<noteq> ERROR) \<longrightarrow> length results \<le> 1"
  proof
    assume "\<forall>x \<in> set lg. fst x \<noteq> ERROR"
    with s have "fst ` set results \<subseteq> {output_dir cfg}" by simp
    then have "filter (\<lambda>(k, v). k = output_dir cfg) results = results"
      by (auto simp: filter_id_conv)
    with one show "length results \<le> 1" by simp
  qed
  have key: "\<forall>info w0 k fs l w1. convert_folder e cfg info w0 = (Inr (k, fs), l, w1)
            \<longrightarrow> k = output_dir cfg"
    by (intro allI impI) (rule convert_folder_flat_key[OF flat])
  have dest: "\<forall>info. get_output_subdir cfg info = output_dir cfg"
    using flat by (simp add: get_output_subdir_def)
  have last: "\<forall>pre k fs post.
             unit_outcomes e cfg folders w = pre @ Inr (k, fs) # post
             \<and> (\<forall>o' \<in> set post. isl o')
             \<and> output_dir cfg \<notin> fst ` set (drop (Suc (length pre)) folders)
            \<longrightarrow> k = output_dir cfg
                \<and> map_of results (output_dir cfg) = Some fs
                \<and> length (filter (\<lambda>(k, v). k = output_dir cfg) results) = 1"
  proof (intro allI impI, elim conjE)
    fix pre k fs post
    assume outs: "unit_outcomes e cfg folders w = pre @ Inr (k, fs) # post"
      and fl: "\<forall>o' \<in> set post. isl o'"
      and nk: "output_dir cfg \<notin> fst ` set (drop (Suc (length pre)) folders)"
    from outs have ne: "folders \<noteq> []" by (cases folders) auto
    from convert_loop_last_success[OF flat outs fl nk, of "length folders" 1 "[]" "[]"] loop[OF ne]
    have k: "k = output_dir cfg" and m: "map_of results (output_dir cfg) = Some fs"
      by simp_all
    from one_entry[OF d m] k m
    show "k = output_dir cfg
                \<and> map_of results (output_dir cfg) = Some fs
                \<and> length (filter (\<lambda>(k, v). k = output_dir cfg) results) = 1"
      by simp
  qed
  have all: "folders \<noteq> [] \<and> (\<forall>o' \<in> set (unit_outcomes e cfg folders w). \<not> isl o')
            \<longrightarrow> results = [(output_dir cfg, snd (projr (last (unit_outcomes e cfg folders w))))]"
  proof (intro impI, elim conjE)
    assume ne: "folders \<noteq> []"
      and ok: "\<forall>o' \<in> set (unit_outcomes e cfg folders w). \<not> isl o'"
    from convert_loop_all_success[OF flat ok ne, of "[]" "length folders" 1 "[]"] loop[OF ne]
    show "results = [(output_dir cfg, snd (projr (last (unit_outcomes e cfg folders w))))]"
      by simp
  qed
  show ?thesis
    using dest key last all d e one two three by (intro conjI)
qed

lemma example_scan: "scan_dicom_folders ''/in'' example_tree = [(''/in/a/b'', example_unit)]"
  by code_simp

lemma example_output_subdir:
  "get_output_subdir example_config example_unit = ''/out/a/P1_20230101_b''"
  by code_simp

text \<open>
  C1. A unit whose conversion raises is recorded with an empty list under its source
  folder path, not under its output directory: here \<open>mkdir\<close> is denied on the output
  directory \<open>/out/a/P1_20230101_b\<close> of the only unit, and the results hold the key
  \<open>/in/a/b\<close>.
\<close>

theorem failed_unit_keyed_by_source_path:
  "fst (convert_all (test_env [''/out/a/P1_20230101_b''] 0) example_config example_tree [] [])
     = [(''/in/a/b'', [])]
   \<and> map (\<lambda>(p, u). get_output_subdir example_config u)
         (scan_dicom_folders (input_dir example_config) example_tree) = [''/out/a/P1_20230101_b'']"
  by code_simp

text \<open>
  C2. With patient information switched on the template is \<open>%p_%s_%d\<close>, protocol
  name, series number and description, and has no patient-name placeholder \<open>%n\<close>;
  switched off it is \<open>%s_%d\<close>, without the protocol name.
\<close>

theorem patient_info_template_has_protocol_placeholder:
  "include_patient_info example_config
   \<and> filename_format example_config = ''%p_%s_%d''
   \<and> \<not> py_contains (filename_format example_config) ''%n''
   \<and> filename_format (example_config\<lparr>include_patient_info := False\<rparr>) = ''%s_%d''
   \<and> \<not> py_contains (filename_format (example_config\<lparr>include_patient_info := False\<rparr>)) ''%p''"
  by code_simp

text \<open>
  C7. When the converter process returns, the list of produced files is the listing of
  the destination directory afterwards, restricted to the names with the expected
  extension; a matching entry that was there before the call and still is belongs to it.
\<close>

theorem dcm2niix_reports_directory_listing:
  assumes "subprocess_run e (dcm2niix_cmd cfg input_folder output_folder) w = (Inr (rc, err), w1)"
  shows "\<exists>lg. convert_with_dcm2niix e cfg input_folder output_folder info w =
           (Inr (map (path_truediv output_folder)
                  (filter (\<lambda>n. endswith n (if compress cfg then ''.nii.gz'' else ''.nii''))
                     (listing e output_folder w1))), lg, w1)
       \<and> (\<forall>n \<in> set (listing e output_folder w).
             n \<in> set (listing e output_folder w1)
             \<and> endswith n (if compress cfg then ''.nii.gz'' else ''.nii'')
             \<longrightarrow> (\<exists>files lg w2. convert_with_dcm2niix e cfg input_folder output_folder info w
                      = (Inr files, lg, w2) \<and> path_truediv output_folder n \<in> set files))"
  using assms
  by (auto simp: convert_with_dcm2niix_def glob_suffix_def nifti_suffix_def Let_def)

theorem dcm2niix_reports_directory_listing_witness:
  "subprocess_run (test_env [] 0) (dcm2niix_cmd example_config ''/in/a/b'' ''/out'')
      [(''/out'', [''old.nii.gz'', ''notes.txt''])]
     = (Inr (0, []), [(''/out'', [''old.nii.gz'', ''notes.txt'', ''b.nii.gz''])])
   \<and> fst (convert_with_dcm2niix (test_env [] 0) example_config ''/in/a/b'' ''/out'' example_unit
        [(''/out'', [''old.nii.gz'', ''notes.txt''])])
     = Inr [''/out/old.nii.gz'', ''/out/b.nii.gz'']"
proof -
  have run: "subprocess_run (test_env [] 0) (dcm2niix_cmd example_config ''/in/a/b'' ''/out'')
      [(''/out'', [''old.nii.gz'', ''notes.txt''])]
     = (Inr (0, []), [(''/out'', [''old.nii.gz'', ''notes.txt'', ''b.nii.gz''])])"
    by code_simp
  have ls: "map (path_truediv ''/out'')
      (filter (\<lambda>n. endswith n (if compress example_config then ''.nii.gz'' else ''.nii''))
         (listing (test_env [] 0) ''/out''
            [(''/out'', [''old.nii.gz'', ''notes.txt'', ''b.nii.gz''])]))
     = [''/out/old.nii.gz'', ''/out/b.nii.gz'']"
    by code_simp
  from dcm2niix_reports_directory_listing[OF run, of example_unit] ls run
  show ?thesis by auto
qed

text \<open>
  C8. A non-zero exit status of the converter adds a warning to the log and nothing
  else: the destination directory is listed, the matching files are stored for the unit
  under its output directory, and the loop goes on with the remaining units.
\<close>

theorem nonzero_exit_still_reports_files:
  assumes dcm: "use_dcm2niix cfg"
    and mk: "mkdir e (get_output_subdir cfg info) w = (None, w1)"
    and run: "subprocess_run e
        (dcm2niix_cmd cfg (folder_path info) (get_output_subdir cfg info)) w1
        = (Inr (rc, err), w2)"
    and rc: "rc \<noteq> 0"
    and files: "files = map (path_truediv (get_output_subdir cfg info))
        (filter (\<lambda>n. endswith n (if compress cfg then ''.nii.gz'' else ''.nii''))
           (listing e (get_output_subdir cfg info) w2))"
  shows "convert_with_dcm2niix e cfg (folder_path info) (get_output_subdir cfg info) info w1
           = (Inr files,
              [(DEBUG, Msg_command (dcm2niix_cmd cfg (folder_path info)
                                      (get_output_subdir cfg info))),
               (WARNING, Msg_dcm2niix_warning err)], w2)
       \<and> convert_loop e cfg t i ((p, info) # rest) (results, lg, w)
           = convert_loop e cfg t (i + 1) rest
               (AList.update (get_output_subdir cfg info) files results,
                lg @ [(INFO, Msg_converting i t (folder_name info)),
                      (DEBUG, Msg_command (dcm2niix_cmd cfg (folder_path info)
                                             (get_output_subdir cfg info))),
                      (WARNING, Msg_dcm2niix_warning err),
                      (INFO, Msg_generated (length files))], w2)"
proof -
  have one: "convert_with_dcm2niix e cfg (folder_path info) (get_output_subdir cfg info) info w1
           = (Inr files,
              [(DEBUG, Msg_command (dcm2niix_cmd cfg (folder_path info)
                                      (get_output_subdir cfg info))),
               (WARNING, Msg_dcm2niix_warning err)], w2)"
    using run rc files
    by (simp add: convert_with_dcm2niix_def glob_suffix_def nifti_suffix_def Let_def)
  have two: "convert_folder e cfg info w
           = (Inr (get_output_subdir cfg info, files),
              [(DEBUG, Msg_command (dcm2niix_cmd cfg (folder_path info)
                                      (get_output_subdir cfg info))),
               (WARNING, Msg_dcm2niix_warning err)], w2)"
    using dcm mk one by (simp add: convert_folder_def Let_def)
  from one two show ?thesis by simp
qed

theorem nonzero_exit_still_reports_files_witness:
  "use_dcm2niix example_config
   \<and> mkdir (test_env [] 1) (get_output_subdir example_config example_unit) [] = (None, [])
   \<and> fst (subprocess_run (test_env [] 1)
        (dcm2niix_cmd example_config (folder_path example_unit)
           (get_output_subdir example_config example_unit)) []) = Inr (1, [])
   \<and> fst (convert_loop (test_env [] 1) example_config 1 1 [(''/in/a/b'', example_unit)]
        ([], [], []))
     = [(''/out/a/P1_20230101_b'', [''/out/a/P1_20230101_b/b.nii.gz''])]"
proof -
  have dcm: "use_dcm2niix example_config" by code_simp
  have mk: "mkdir (test_env [] 1) (get_output_subdir example_config example_unit) [] = (None, [])"
    by code_simp
  have run: "subprocess_run (test_env [] 1)
        (dcm2niix_cmd example_config (folder_path example_unit)
           (get_output_subdir example_config example_unit)) []
      = (Inr (1, []), [(''/out/a/P1_20230101_b'', [''b.nii.gz''])])"
    by code_simp
  have rc: "(1::int) \<noteq> 0" by simp
  have files: "[''/out/a/P1_20230101_b/b.nii.gz'']
      = map (path_truediv (get_output_subdir example_config example_unit))
        (filter (\<lambda>n. endswith n (if compress example_config then ''.nii.gz'' else ''.nii''))
           (listing (test_env [] 1) (get_output_subdir example_config example_unit)
              [(''/out/a/P1_20230101_b'', [''b.nii.gz''])]))"
    by code_simp
  have out: "get_output_subdir example_config example_unit = ''/out/a/P1_20230101_b''"
    by code_simp
  from nonzero_exit_still_reports_files[OF dcm mk run rc files,
      of 1 1 "''/in/a/b''" "[]" "[]" "[]"]
  have "fst (convert_loop (test_env [] 1) example_config 1 1 [(''/in/a/b'', example_unit)]
        ([], [], []))
     = [(''/out/a/P1_20230101_b'', [''/out/a/P1_20230101_b/b.nii.gz''])]"
    by (simp add: out)
  with dcm mk run show ?thesis by simp
qed

theorem flat_mode_single_success_entry_witness:
  "\<not> organize_by_folder (example_config\<lparr>organize_by_folder := False\<rparr>)
   \<and> unit_outcomes (failing_env ''/in/c'') (example_config\<lparr>organize_by_folder := False\<rparr>)
        [(''/in/a/b'', example_unit),
         (''/in/d'', example_unit\<lparr>folder_path := ''/in/d''\<rparr>),
         (''/in/c'', example_unit\<lparr>folder_path := ''/in/c''\<rparr>)] []
     = [Inr (''/out'', [''/out/b.nii.gz'']),
        Inr (''/out'', [''/out/b.nii.gz'', ''/out/d.nii.gz'']),
        Inl (PyException ''FileNotFoundError'')]
   \<and> fst (convert_all (failing_env ''/in/c'') (example_config\<lparr>organize_by_folder := False\<rparr>)
        example_tree
        [(''/in/a/b'', example_unit),
         (''/in/d'', example_unit\<lparr>folder_path := ''/in/d''\<rparr>),
         (''/in/c'', example_unit\<lparr>folder_path := ''/in/c''\<rparr>)] [])
     = [(''/out'', [''/out/b.nii.gz'', ''/out/d.nii.gz'']), (''/in/c'', [])]
   \<and> map_of (fst (convert_all (failing_env ''/in/c'') (example_config\<lparr>organize_by_folder := False\<rparr>)
        example_tree
        [(''/in/a/b'', example_unit),
         (''/in/d'', example_unit\<lparr>folder_path := ''/in/d''\<rparr>),
         (''/in/c'', example_unit\<lparr>folder_path := ''/in/c''\<rparr>)] [])) ''/out''
     = Some [''/out/b.nii.gz'', ''/out/d.nii.gz'']"
proof -
  let ?cfg = "example_config\<lparr>organize_by_folder := False\<rparr>"
  let ?folders = "[(''/in/a/b'', example_unit),
         (''/in/d'', example_unit\<lparr>folder_path := ''/in/d''\<rparr>),
         (''/in/c'', example_unit\<lparr>folder_path := ''/in/c''\<rparr>)]"
  have flat: "\<not> organize_by_folder ?cfg" by simp
  obtain results lg w' where run:
    "convert_all (failing_env ''/in/c'') ?cfg example_tree ?folders [] = (results, lg, w')"
    by (metis prod_cases3)
  have fo: "?folders = (if ?folders = [] then scan_dicom_folders (input_dir ?cfg) example_tree
                        else ?folders)"
    by simp
  have outs: "unit_outcomes (failing_env ''/in/c'') ?cfg ?folders []
     = [Inr (''/out'', [''/out/b.nii.gz''])]
       @ Inr (''/out'', [''/out/b.nii.gz'', ''/out/d.nii.gz''])
       # [Inl (PyException ''FileNotFoundError'')]"
    by code_simp
  have fl: "\<forall>o' \<in> set [Inl (PyException ''FileNotFoundError'') :: py_exception + string \<times> string list]. isl o'"
    by simp
  have od: "output_dir ?cfg = ''/out''" by (simp add: example_config_def)
  have nk: "output_dir ?cfg \<notin> fst ` set (drop (Suc (length
      [Inr (''/out'', [''/out/b.nii.gz'']) :: py_exception + string \<times> string list])) ?folders)"
    by (simp add: od)
  have val: "fst (convert_all (failing_env ''/in/c'') ?cfg example_tree ?folders [])
     = [(''/out'', [''/out/b.nii.gz'', ''/out/d.nii.gz'']), (''/in/c'', [])]"
    by code_simp
  note L = flat_mode_single_success_entry[OF flat run fo, THEN conjunct2, THEN conjunct2, THEN conjunct1,
      rule_format, OF conjI[OF outs conjI[OF fl nk]]]
  from L run od have m: "map_of (fst (convert_all (failing_env ''/in/c'') ?cfg example_tree ?folders []))
      ''/out'' = Some [''/out/b.nii.gz'', ''/out/d.nii.gz'']"
    by simp
  from outs have outs': "unit_outcomes (failing_env ''/in/c'') ?cfg ?folders []
     = [Inr (''/out'', [''/out/b.nii.gz'']),
        Inr (''/out'', [''/out/b.nii.gz'', ''/out/d.nii.gz'']),
        Inl (PyException ''FileNotFoundError'')]"
    by simp
  from flat outs' val m show ?thesis by (intro conjI)
qed

end
